theory Spec2Isabelle
  imports Main "HOL-Library.Sublist" "HOL-Library.Char_ord" "HOL-Library.List_Lexorder"
    "HOL-Library.Multiset"
begin

section \<open>Python text primitives used by \<^verbatim>\<open>scripts/embed_builtins.py\<close>\<close>

text \<open>
  A Python \<^verbatim>\<open>str\<close> is represented by the list of its UTF-8 code units. Every text
  operation of the script searches for an ASCII character or an ASCII suffix, concatenates,
  or compares; on valid UTF-8 these act on code units exactly as they act on code points
  (an ASCII byte never occurs inside a multi-byte sequence, and byte order is code point
  order). A byte of a file name that is not part of well-formed UTF-8 reaches Python as
  a lone surrogate; here it stands as itself, so that a string holds such a surrogate
  exactly when its code units are not well-formed UTF-8. (Among names with such bytes
  the order of the code units need not be Python's order; the properties below use only
  that the order is linear.)
\<close>

abbreviation BS :: char where "BS \<equiv> CHR 0x5C"
abbreviation DQ :: char where "DQ \<equiv> CHR 0x22"
abbreviation CR :: char where "CR \<equiv> CHR 0x0D"
abbreviation LF :: char where "LF \<equiv> CHR 0x0A"

text \<open>\<^verbatim>\<open>s.replace(old, new)\<close>: leftmost non-overlapping occurrences, left to right.\<close>

fun replace :: "'a list \<Rightarrow> 'a list \<Rightarrow> 'a list \<Rightarrow> 'a list" where
  "replace old new [] = (if old = [] then new else [])"
| "replace old new (x # xs) =
     (if old = [] then new @ x # replace old new xs
      else if prefix old (x # xs) then new @ replace old new (drop (length old) (x # xs))
      else x # replace old new xs)"

text \<open>\<^verbatim>\<open>s.endswith(suf)\<close>.\<close>

definition endswith :: "string \<Rightarrow> string \<Rightarrow> bool" where
  "endswith s suf = suffix suf s"

text \<open>\<^verbatim>\<open>s.rfind(c)\<close> for a single character: the last index, or nothing for Python's -1.\<close>

definition rfind :: "char \<Rightarrow> string \<Rightarrow> nat option" where
  "rfind c s =
     (if c \<in> set s then Some (length s - 1 - length (takeWhile (\<lambda>x. x \<noteq> c) (rev s)))
      else None)"

text \<open>\<^verbatim>\<open>s.rsplit(c, 1)\<close>: split once at the last occurrence of the separator.\<close>

definition rsplit1 :: "char \<Rightarrow> string \<Rightarrow> string list" where
  "rsplit1 c s =
     (if c \<in> set s
      then [rev (tl (dropWhile (\<lambda>x. x \<noteq> c) (rev s))), rev (takeWhile (\<lambda>x. x \<noteq> c) (rev s))]
      else [s])"

text \<open>\<^verbatim>\<open>sep.join(parts)\<close>.\<close>

fun join :: "string \<Rightarrow> string list \<Rightarrow> string" where
  "join sep [] = []"
| "join sep [x] = x"
| "join sep (x # y # ys) = x @ sep @ join sep (y # ys)"

section \<open>Paths and files\<close>

text \<open>
  A path is the list of its components below the directory it is relative to.
  \<^verbatim>\<open>PurePath.suffix\<close> is taken as CPython defines it up to 3.13: the part of the final
  component from its last dot on, provided that dot is neither the first nor the last
  character of the component.
\<close>

type_synonym path = "string list"

definition path_name :: "path \<Rightarrow> string" where
  "path_name p = (if p = [] then [] else last p)"

definition path_suffix :: "path \<Rightarrow> string" where
  "path_suffix p =
     (let name = path_name p in
      case rfind (CHR ''.'') name of
        None \<Rightarrow> []
      | Some i \<Rightarrow> if 0 < i \<and> i + 1 < length name then drop i name else [])"

definition as_posix :: "path \<Rightarrow> string" where
  "as_posix p = (if p = [] then ''.'' else join ''/'' p)"

definition parent :: "path \<Rightarrow> path" where
  "parent p = butlast p"

text \<open>
  The bytes of a file are kept in the form the UTF-8 decoder sees them: a sequence of
  cells, each one code unit of a well-formed character or one ill-formed byte sequence.
  A file written by the script holds \<open>Chr\<close> cells only. A regular file also records
  whether the process may read it.
\<close>

datatype cell = Chr char | Undecodable

datatype node = Dir | File bool "cell list"

datatype pyerr =
    FileNotFoundError
  | FileExistsError
  | PermissionError
  | IsADirectoryError
  | NotADirectoryError
  | UnicodeDecodeError
  | UnicodeEncodeError
  | OSError

datatype errors = Strict | Replace

definition replacement_character :: string where
  "replacement_character = [CHR 0xEF, CHR 0xBF, CHR 0xBD]"

fun decode :: "errors \<Rightarrow> cell list \<Rightarrow> pyerr + string" where
  "decode h [] = Inr []"
| "decode h (Chr c # cs) =
     (case decode h cs of Inl e \<Rightarrow> Inl e | Inr t \<Rightarrow> Inr (c # t))"
| "decode Strict (Undecodable # cs) = Inl UnicodeDecodeError"
| "decode Replace (Undecodable # cs) =
     (case decode Replace cs of Inl e \<Rightarrow> Inl e | Inr t \<Rightarrow> Inr (replacement_character @ t))"

text \<open>
  Text mode with the default \<^verbatim>\<open>newline=None\<close>: on reading, \<^verbatim>\<open>\r\n\<close> and a lone
  \<^verbatim>\<open>\r\<close> both become \<^verbatim>\<open>\n\<close>; on writing, \<^verbatim>\<open>\n\<close> becomes the platform's line
  separator.
\<close>

fun universal_newlines :: "string \<Rightarrow> string" where
  "universal_newlines [] = []"
| "universal_newlines [c] = (if c = CR then [LF] else [c])"
| "universal_newlines (c # d # cs) =
     (if c = CR \<and> d = LF then LF # universal_newlines cs
      else if c = CR then LF # universal_newlines (d # cs)
      else c # universal_newlines (d # cs))"

definition write_newlines :: "string \<Rightarrow> string \<Rightarrow> string" where
  "write_newlines linesep s = replace [LF] linesep s"

text \<open>\<^verbatim>\<open>Path.read_text(encoding='utf-8', errors=h)\<close> on an existing node.\<close>

definition read_text :: "errors \<Rightarrow> node \<Rightarrow> pyerr + string" where
  "read_text h n =
     (case n of
        Dir \<Rightarrow> Inl IsADirectoryError
      | File readable cs \<Rightarrow>
          if \<not> readable then Inl PermissionError
          else (case decode h cs of Inl e \<Rightarrow> Inl e | Inr t \<Rightarrow> Inr (universal_newlines t)))"

fun is_file :: "node \<Rightarrow> bool" where
  "is_file Dir = False"
| "is_file (File r cs) = True"

section \<open>The collector\<close>

text \<open>
  The library directory is given by what \<^verbatim>\<open>lib_dir.rglob('*')\<close> yields, in the order
  the operating system yields it: every entry below the root with its path relative to
  the root; \<open>None\<close> when the root does not exist. \<^verbatim>\<open>sorted\<close> orders paths by their
  component lists.
\<close>

type_synonym listing = "(path \<times> node) list"

text \<open>The \<^verbatim>\<open>try\<close> around the strict read: whatever it raises, the file is read again
  with \<^verbatim>\<open>errors='replace'\<close>, and what that read raises is not caught.\<close>

definition read_or_replace :: "node \<Rightarrow> pyerr + string" where
  "read_or_replace n =
     (case read_text Strict n of
        Inr data \<Rightarrow> Inr data
      | Inl e \<Rightarrow> read_text Replace n)"

fun collect_loop :: "listing \<Rightarrow> (string \<times> string) list \<Rightarrow> pyerr + (string \<times> string) list" where
  "collect_loop [] pairs = Inr pairs"
| "collect_loop ((p, n) # rest) pairs =
     (if is_file n \<and> (path_suffix p = ''.sl'' \<or> path_suffix p = ''.swz'') then
        (let rel = as_posix p in
         case read_or_replace n of
           Inl e \<Rightarrow> Inl e
         | Inr data \<Rightarrow> collect_loop rest (pairs @ [(rel, data)]))
      else collect_loop rest pairs)"

definition collect_files :: "listing option \<Rightarrow> pyerr + (string \<times> string) list" where
  "collect_files lib_dir =
     (case lib_dir of
        None \<Rightarrow> Inr []
      | Some entries \<Rightarrow> collect_loop (sort_key fst entries) [])"

section \<open>The emitter\<close>

definition cpp_escape :: "string \<Rightarrow> string" where
  "cpp_escape s =
     (let s1 = replace [BS] [BS, BS] s;
          s2 = replace [DQ] [BS, DQ] s1;
          s3 = replace [CR] [] s2;
          s4 = replace [LF] [BS, CHR ''n'', DQ, LF, DQ] s3
      in s4)"

text \<open>The row template \<^verbatim>\<open>f'    {{ "{key}", "{esc}" }},\n'\<close>.\<close>

definition table_row :: "string \<Rightarrow> string \<Rightarrow> string" where
  "table_row key esc = ''    { '' @ [DQ] @ key @ [DQ] @ '', '' @ [DQ] @ esc @ [DQ] @ '' },'' @ [LF]"

definition header_parts :: "string list" where
  "header_parts =
     [''// GENERATED FILE - do not edit. Regenerate with scripts/embed_builtins.py'' @ [LF],
      ''#include '' @ [DQ] @ ''builtin_sl.h'' @ [DQ] @ [LF],
      ''#include <unordered_map>'' @ [LF] @ ''#include <string>'' @ [LF]
        @ ''#include <optional>'' @ [LF, LF],
      ''using namespace std;'' @ [LF, LF],
      ''static unordered_map<string,string> __embedded_modules = {'' @ [LF]]"

definition footer_parts :: "string list" where
  "footer_parts =
     [''};'' @ [LF, LF],
      ''bool has_embedded_module(const std::string &spec) {'' @ [LF],
      ''    return __embedded_modules.find(spec) != __embedded_modules.end();'' @ [LF],
      ''}'' @ [LF, LF],
      ''std::optional<std::string> get_embedded_module_source(const std::string &spec) {'' @ [LF],
      ''    auto it = __embedded_modules.find(spec);'' @ [LF],
      ''    if (it == __embedded_modules.end()) return std::nullopt;'' @ [LF],
      ''    return it->second;'' @ [LF],
      ''}'' @ [LF]]"

text \<open>One pass of the loop over \<open>pairs\<close>: the parts it appends.\<close>

definition emit_pair :: "string list \<Rightarrow> string \<times> string \<Rightarrow> string list" where
  "emit_pair parts pair =
     (case pair of (rel, data) \<Rightarrow>
        let esc = cpp_escape data;
            parts1 = parts @ [table_row rel esc]
        in if endswith rel ''.sl'' \<or> endswith rel ''.swz'' then
             (let noext = rsplit1 (CHR ''.'') rel ! 0;
                  parts2 = parts1 @ [table_row noext esc]
              in parts2 @ [table_row (''swazi:'' @ noext) esc])
           else parts1)"

definition generate_content :: "(string \<times> string) list \<Rightarrow> string" where
  "generate_content pairs = concat (foldl emit_pair header_parts pairs @ footer_parts)"

section \<open>The writer\<close>

text \<open>
  The file system the writer works on maps a path to the node found there. The
  environment fixes the platform's line separator, the names \<^verbatim>\<open>tempfile.mkstemp\<close>
  tries after the prefix, and which system calls fail.
\<close>

type_synonym fs = "path \<Rightarrow> node option"

record env =
  linesep :: string
  tmp_suffixes :: "string list"
  fail_mkdir :: bool
  fail_mkstemp :: bool
  fail_write :: "nat option"
  fail_replace :: bool
  fail_unlink :: bool

text \<open>
  \<^verbatim>\<open>path.parent.mkdir(parents=True, exist_ok=True)\<close>: every ancestor, outermost first,
  is created unless it is there; a regular file in the way is an error.
\<close>

fun mkdirs :: "path list \<Rightarrow> fs \<Rightarrow> pyerr option \<times> fs" where
  "mkdirs [] fs = (None, fs)"
| "mkdirs (q # qs) fs =
     (case fs q of
        None \<Rightarrow> mkdirs qs (fs(q \<mapsto> Dir))
      | Some Dir \<Rightarrow> mkdirs qs fs
      | Some (File r cs) \<Rightarrow> (Some (if qs = [] then FileExistsError else NotADirectoryError), fs))"

definition mkdir_parents :: "env \<Rightarrow> fs \<Rightarrow> path \<Rightarrow> pyerr option \<times> fs" where
  "mkdir_parents e fs d =
     (if fail_mkdir e then (Some PermissionError, fs) else mkdirs (tl (prefixes d)) fs)"

text \<open>
  \<^verbatim>\<open>tempfile.mkstemp(prefix=name, dir=d)\<close>: the first candidate name that does not exist
  is created, empty.
\<close>

definition mkstemp :: "env \<Rightarrow> fs \<Rightarrow> path \<Rightarrow> string \<Rightarrow> pyerr + (path \<times> fs)" where
  "mkstemp e fs d name =
     (if fail_mkstemp e then Inl PermissionError
      else if d \<noteq> [] \<and> fs d \<noteq> Some Dir then Inl FileNotFoundError
      else (case find (\<lambda>s. fs (d @ [name @ s]) = None) (tmp_suffixes e) of
              None \<Rightarrow> Inl FileExistsError
            | Some s \<Rightarrow> Inr (d @ [name @ s], fs(d @ [name @ s] \<mapsto> File True []))))"

text \<open>
  The temporary file is opened with \<^verbatim>\<open>encoding='utf-8'\<close> and the default, strict
  error handler: a string can be written only if its code units are well-formed UTF-8
  (the shortest form of a scalar value: no stray continuation byte, no overlong form, no
  surrogate, nothing above U+10FFFF, no truncated sequence).
\<close>

definition continuation :: "char \<Rightarrow> bool" where
  "continuation c = (0x80 \<le> (of_char c :: nat) \<and> (of_char c :: nat) \<le> 0xBF)"

fun utf8_encodable :: "string \<Rightarrow> bool" where
  "utf8_encodable [] = True"
| "utf8_encodable (a # s) =
     (let n = (of_char a :: nat) in
      if n < 0x80 then utf8_encodable s
      else if 0xC2 \<le> n \<and> n \<le> 0xDF then
        (case s of
           b # s' \<Rightarrow> continuation b \<and> utf8_encodable s'
         | _ \<Rightarrow> False)
      else if 0xE0 \<le> n \<and> n \<le> 0xEF then
        (case s of
           b # c # s' \<Rightarrow>
             continuation b \<and> continuation c
             \<and> (n = 0xE0 \<longrightarrow> 0xA0 \<le> (of_char b :: nat))
             \<and> (n = 0xED \<longrightarrow> (of_char b :: nat) \<le> 0x9F)
             \<and> utf8_encodable s'
         | _ \<Rightarrow> False)
      else if 0xF0 \<le> n \<and> n \<le> 0xF4 then
        (case s of
           b # c # d # s' \<Rightarrow>
             continuation b \<and> continuation c \<and> continuation d
             \<and> (n = 0xF0 \<longrightarrow> 0x90 \<le> (of_char b :: nat))
             \<and> (n = 0xF4 \<longrightarrow> (of_char b :: nat) \<le> 0x8F)
             \<and> utf8_encodable s'
         | _ \<Rightarrow> False)
      else False)"

text \<open>
  \<^verbatim>\<open>tmpf.write(content)\<close> and the close of the file. The string is encoded before
  anything is written, so a string that cannot be encoded raises and leaves the temporary
  file as it is; a failing write leaves a prefix of the data in the temporary file.
\<close>

definition write_tmp :: "env \<Rightarrow> fs \<Rightarrow> path \<Rightarrow> string \<Rightarrow> pyerr option \<times> fs" where
  "write_tmp e fs tmp content =
     (if \<not> utf8_encodable content then (Some UnicodeEncodeError, fs)
      else
        (let data = map Chr (write_newlines (linesep e) content) in
         case fail_write e of
           Some n \<Rightarrow> (Some OSError, fs(tmp \<mapsto> File True (take n data)))
         | None \<Rightarrow> (None, fs(tmp \<mapsto> File True data))))"

text \<open>\<^verbatim>\<open>os.replace(src, dst)\<close>: all or nothing.\<close>

definition os_replace :: "env \<Rightarrow> fs \<Rightarrow> path \<Rightarrow> path \<Rightarrow> pyerr option \<times> fs" where
  "os_replace e fs src dst =
     (if fail_replace e then (Some OSError, fs)
      else (case fs src of
              None \<Rightarrow> (Some FileNotFoundError, fs)
            | Some n \<Rightarrow>
                (case fs dst of
                   Some Dir \<Rightarrow> (Some IsADirectoryError, fs)
                 | _ \<Rightarrow> (None, (fs(src := None))(dst \<mapsto> n)))))"

text \<open>The \<^verbatim>\<open>finally\<close> block: remove the temporary file if it is there; a failing
  removal is swallowed.\<close>

definition cleanup :: "env \<Rightarrow> fs \<Rightarrow> path \<Rightarrow> fs" where
  "cleanup e fs tmp =
     (if fs tmp \<noteq> None then (if fail_unlink e then fs else fs(tmp := None)) else fs)"

definition unchanged_message :: "path \<Rightarrow> string" where
  "unchanged_message p = ''No changes for '' @ as_posix p @ '', skipping rewrite.''"

definition wrote_message :: "path \<Rightarrow> string" where
  "wrote_message p = ''Wrote '' @ as_posix p"

text \<open>The existing target is read only when \<^verbatim>\<open>path.exists()\<close>; any exception of the
  read is swallowed.\<close>

definition existing_text :: "fs \<Rightarrow> path \<Rightarrow> string option" where
  "existing_text fs p =
     (case fs p of
        None \<Rightarrow> None
      | Some n \<Rightarrow> (case read_text Strict n of Inl e \<Rightarrow> None | Inr t \<Rightarrow> Some t))"

text \<open>The result: the value returned or the exception raised, the file system left
  behind, and the lines printed.\<close>

definition atomic_write_if_changed ::
  "env \<Rightarrow> fs \<Rightarrow> path \<Rightarrow> string \<Rightarrow> (pyerr + bool) \<times> fs \<times> string list" where
  "atomic_write_if_changed e fs p content =
     (case mkdir_parents e fs (parent p) of
        (Some err, fs1) \<Rightarrow> (Inl err, fs1, [])
      | (None, fs1) \<Rightarrow>
          if existing_text fs1 p = Some content then (Inr False, fs1, [unchanged_message p])
          else
            (case mkstemp e fs1 (parent p) (path_name p) of
               Inl err \<Rightarrow> (Inl err, fs1, [])
             | Inr (tmp, fs2) \<Rightarrow>
                 (case write_tmp e fs2 tmp content of
                    (Some err, fs3) \<Rightarrow> (Inl err, cleanup e fs3 tmp, [])
                  | (None, fs3) \<Rightarrow>
                      (case os_replace e fs3 tmp p of
                         (Some err, fs4) \<Rightarrow> (Inl err, cleanup e fs4 tmp, [])
                       | (None, fs4) \<Rightarrow> (Inr True, cleanup e fs4 tmp, [wrote_message p])))))"

text \<open>
  The states of the file system that can be observed while the call runs, in order: one
  after each directory created, after the temporary file is created, after each
  character that reaches the temporary file, after the replace and after the removal in
  the \<^verbatim>\<open>finally\<close> block.
\<close>

fun mkdirs_states :: "path list \<Rightarrow> fs \<Rightarrow> fs list" where
  "mkdirs_states [] fs = []"
| "mkdirs_states (q # qs) fs =
     (case fs q of
        None \<Rightarrow> fs(q \<mapsto> Dir) # mkdirs_states qs (fs(q \<mapsto> Dir))
      | Some Dir \<Rightarrow> mkdirs_states qs fs
      | Some (File r cs) \<Rightarrow> [])"

definition mkdir_parents_states :: "env \<Rightarrow> fs \<Rightarrow> path \<Rightarrow> fs list" where
  "mkdir_parents_states e fs d = (if fail_mkdir e then [] else mkdirs_states (tl (prefixes d)) fs)"

definition write_tmp_states :: "env \<Rightarrow> fs \<Rightarrow> path \<Rightarrow> string \<Rightarrow> fs list" where
  "write_tmp_states e fs tmp content =
     (if \<not> utf8_encodable content then []
      else
        (let data = map Chr (write_newlines (linesep e) content);
             m = (case fail_write e of Some n \<Rightarrow> min n (length data) | None \<Rightarrow> length data)
         in map (\<lambda>k. fs(tmp \<mapsto> File True (take k data))) [0..<Suc m]))"

definition atomic_write_states :: "env \<Rightarrow> fs \<Rightarrow> path \<Rightarrow> string \<Rightarrow> fs list" where
  "atomic_write_states e fs p content =
     mkdir_parents_states e fs (parent p) @
     (case mkdir_parents e fs (parent p) of
        (Some err, fs1) \<Rightarrow> []
      | (None, fs1) \<Rightarrow>
          if existing_text fs1 p = Some content then []
          else
            (case mkstemp e fs1 (parent p) (path_name p) of
               Inl err \<Rightarrow> []
             | Inr (tmp, fs2) \<Rightarrow>
                 fs2 # write_tmp_states e fs2 tmp content @
                 (case write_tmp e fs2 tmp content of
                    (Some err, fs3) \<Rightarrow> [cleanup e fs3 tmp]
                  | (None, fs3) \<Rightarrow>
                      (case os_replace e fs3 tmp p of
                         (Some err, fs4) \<Rightarrow> [cleanup e fs4 tmp]
                       | (None, fs4) \<Rightarrow> [fs4, cleanup e fs4 tmp]))))"

section \<open>The program\<close>

text \<open>\<open>Inr c\<close> is \<^verbatim>\<open>sys.exit(c)\<close>; \<open>Inl err\<close> is an exception nobody catches.\<close>

definition main ::
  "env \<Rightarrow> listing option \<Rightarrow> path \<Rightarrow> fs \<Rightarrow> (pyerr + nat) \<times> fs \<times> string list" where
  "main e lib_dir out_cpp fs =
     (case collect_files lib_dir of
        Inl err \<Rightarrow> (Inl err, fs, [])
      | Inr pairs \<Rightarrow>
          (let content = generate_content pairs in
           case atomic_write_if_changed e fs out_cpp content of
             (Inl err, fs', out) \<Rightarrow> (Inl err, fs', out)
           | (Inr changed, fs', out) \<Rightarrow> (if \<not> changed then (Inr 0, fs', out) else (Inr 0, fs', out))))"

section \<open>Reading the generated literals back\<close>

text \<open>
  The decoder of the text between the opening and the closing quote of a content
  position, as the escaping contract words it: inside a literal \<^verbatim>\<open>\\\<close> is a
  backslash, \<^verbatim>\<open>\"\<close> a double quote and \<^verbatim>\<open>\n\<close> a line feed; a double quote closes the
  literal; between two literals only white space may stand, and adjacent literals are
  concatenated. Any other escape, a raw line feed inside a literal, and text that ends
  between two literals are rejected.
\<close>

fun literal_body :: "string \<Rightarrow> string option"
  and literal_gap :: "string \<Rightarrow> string option" where
  "literal_body [] = Some []"
| "literal_body (c # cs) =
     (if c = BS then
        (case cs of
           [] \<Rightarrow> None
         | e # r \<Rightarrow>
             if e = BS then map_option ((#) BS) (literal_body r)
             else if e = DQ then map_option ((#) DQ) (literal_body r)
             else if e = CHR ''n'' then map_option ((#) LF) (literal_body r)
             else None)
      else if c = DQ then literal_gap cs
      else if c = LF then None
      else map_option ((#) c) (literal_body cs))"
| "literal_gap [] = None"
| "literal_gap (c # cs) =
     (if c = DQ then literal_body cs
      else if c = LF \<or> c = CHR '' '' \<or> c = CHR 0x09 then literal_gap cs
      else None)"

definition cpp_decode :: "string \<Rightarrow> string option" where
  "cpp_decode s = literal_body s"

section \<open>The generated table and its accessors\<close>



text \<open>
  The generated C++ declares \<^verbatim>\<open>static unordered_map<string,string> __embedded_modules\<close>
  with the rows as its initialiser list, and defines the two accessors by
  \<^verbatim>\<open>find\<close>. The map is filled from a row list by inserting its elements;
  \<^verbatim>\<open>std::nullopt\<close> is \<open>None\<close>. The properties below read the table of the empty
  document only, which has no row: every way of filling a map from no element gives the
  empty map.
\<close>

definition embedded_modules :: "(string \<times> string) list \<Rightarrow> (string \<Rightarrow> string option)" where
  "embedded_modules rows = foldl (\<lambda>m (k, v). if m k = None then m(k \<mapsto> v) else m) Map.empty rows"

definition has_embedded_module :: "(string \<Rightarrow> string option) \<Rightarrow> string \<Rightarrow> bool" where
  "has_embedded_module m spec = (m spec \<noteq> None)"

definition get_embedded_module_source :: "(string \<Rightarrow> string option) \<Rightarrow> string \<Rightarrow> string option" where
  "get_embedded_module_source m spec = (if m spec = None then None else m spec)"

section \<open>Vocabulary of the properties\<close>

text \<open>What the four replacements of the escaping do to one character.\<close>

definition escape_char :: "char \<Rightarrow> string" where
  "escape_char c =
     (if c = BS then [BS, BS]
      else if c = DQ then [BS, DQ]
      else if c = CR then []
      else if c = LF then [BS, CHR ''n'', DQ, LF, DQ]
      else [c])"

text \<open>An entry the collector keeps: a regular file whose suffix is one of the two
  recognised ones.\<close>

definition eligible :: "path \<times> node \<Rightarrow> bool" where
  "eligible en = (is_file (snd en) \<and> (path_suffix (fst en) = ''.sl'' \<or> path_suffix (fst en) = ''.swz''))"

text \<open>The text of a file with every ill-formed byte sequence replaced; for a file
  without one this is its text.\<close>

definition lossy_text :: "cell list \<Rightarrow> string" where
  "lossy_text cs = concat (map (\<lambda>c. case c of Chr x \<Rightarrow> [x] | Undecodable \<Rightarrow> replacement_character) cs)"

definition entry_pair :: "path \<times> node \<Rightarrow> string \<times> string" where
  "entry_pair en = (as_posix (fst en), case read_or_replace (snd en) of Inr d \<Rightarrow> d | Inl e \<Rightarrow> [])"


text \<open>Strings of ASCII characters; they can always be encoded.\<close>

definition is_ascii :: "string \<Rightarrow> bool" where
  "is_ascii s = list_all (\<lambda>c. (of_char c :: nat) < 0x80) s"

text \<open>A POSIX environment in which no system call fails.\<close>

definition posix_env :: env where
  "posix_env = \<lparr>linesep = [LF], tmp_suffixes = [''k3x_9qzp''], fail_mkdir = False,
     fail_mkstemp = False, fail_write = None, fail_replace = False, fail_unlink = False\<rparr>"

section \<open>Properties of the escaping\<close>

lemma replace_single:
  "replace [c] new s = concat (map (\<lambda>x. if x = c then new else [x]) s)"
  by (induction s) auto

lemma concat_map_concat_map:
  "concat (map g (concat (map f s))) = concat (map (\<lambda>x. concat (map g (f x))) s)"
  by (induction s) auto

lemma cpp_escape_chars: "cpp_escape s = concat (map escape_char s)"
proof -
  have "(\<lambda>x. concat (map (\<lambda>x. if x = LF then [BS, CHR ''n'', DQ, LF, DQ] else [x])
           (concat (map (\<lambda>x. if x = CR then [] else [x])
             (concat (map (\<lambda>x. if x = DQ then [BS, DQ] else [x])
               (if x = BS then [BS, BS] else [x]))))))) = escape_char"
    by (rule ext) (simp add: escape_char_def)
  then show ?thesis
    by (simp add: cpp_escape_def replace_single concat_map_concat_map)
qed

lemma literal_body_escape_char:
  "literal_body (escape_char c @ rest) =
     (if c = CR then literal_body rest else map_option ((#) c) (literal_body rest))"
  by (simp add: escape_char_def)

lemma literal_body_escaped:
  "literal_body (concat (map escape_char s)) = Some (filter (\<lambda>c. c \<noteq> CR) s)"
  by (induction s) (simp_all add: literal_body_escape_char)

text \<open>
  C2. Decoding the escaped text by the literal rules gives back the original string with
  every carriage return removed and every other character kept, in order.
\<close>

theorem cpp_escape_roundtrip:
  "cpp_decode (cpp_escape s) = Some (filter (\<lambda>c. c \<noteq> CR) s)"
  by (simp add: cpp_decode_def cpp_escape_chars literal_body_escaped)

section \<open>Properties of the emitter and the collector\<close>

lemma emit_pair_append: "emit_pair parts pair = parts @ emit_pair [] pair"
  by (cases pair) (simp add: emit_pair_def Let_def)

lemma foldl_emit_pair:
  "foldl emit_pair parts pairs = parts @ concat (map (emit_pair []) pairs)"
proof (induction pairs arbitrary: parts)
  case Nil
  then show ?case by simp
next
  case (Cons a pairs)
  show ?case
    using Cons.IH[of "emit_pair parts a"] emit_pair_append[of parts a] by simp
qed

lemma generate_content_rows:
  "generate_content pairs =
     concat header_parts @ concat (concat (map (emit_pair []) pairs)) @ concat footer_parts"
  by (simp add: generate_content_def foldl_emit_pair)

lemma rsplit1_last:
  "c \<notin> set b \<Longrightarrow> rsplit1 c (a @ c # b) = [a, b]"
  by (simp add: rsplit1_def takeWhile_append dropWhile_append)

lemma emit_pair_sl:
  "emit_pair parts (stem @ ''.sl'', data) =
     parts @ [table_row (stem @ ''.sl'') (cpp_escape data),
              table_row stem (cpp_escape data),
              table_row (''swazi:'' @ stem) (cpp_escape data)]"
  using rsplit1_last[of "CHR ''.''" "''sl''" stem]
  by (simp add: emit_pair_def Let_def endswith_def suffix_def)

lemma emit_pair_swz:
  "emit_pair parts (stem @ ''.swz'', data) =
     parts @ [table_row (stem @ ''.swz'') (cpp_escape data),
              table_row stem (cpp_escape data),
              table_row (''swazi:'' @ stem) (cpp_escape data)]"
  using rsplit1_last[of "CHR ''.''" "''swz''" stem]
  by (simp add: emit_pair_def Let_def endswith_def suffix_def)

lemma emit_pair_length: "length (emit_pair [] pair) \<le> 3"
  by (cases pair) (simp add: emit_pair_def Let_def)

lemma join_last: "p \<noteq> [] \<Longrightarrow> \<exists>pre. join sep p = pre @ last p"
  by (induction sep p rule: join.induct) auto

lemma path_suffix_stem:
  assumes "path_suffix p = x # ext"
  shows "\<exists>stem. as_posix p = stem @ x # ext"
proof -
  have pne: "p \<noteq> []"
    using assms by (auto simp: path_suffix_def path_name_def rfind_def)
  then have name: "path_name p = last p" by (simp add: path_name_def)
  from assms obtain i where "drop i (last p) = x # ext"
    by (auto simp: path_suffix_def name Let_def split: option.splits if_splits)
  then have "last p = take i (last p) @ x # ext"
    by (metis append_take_drop_id)
  moreover from join_last[OF pne] obtain pre where "join ''/'' p = pre @ last p" by blast
  ultimately have "as_posix p = (pre @ take i (last p)) @ x # ext"
    using pne by (simp add: as_posix_def)
  then show ?thesis by blast
qed

lemma decode_Replace: "decode Replace cs = Inr (lossy_text cs)"
proof (induction cs)
  case Nil
  then show ?case by (simp add: lossy_text_def)
next
  case (Cons c cs)
  then show ?case by (cases c) (simp_all add: lossy_text_def)
qed

lemma decode_Strict:
  "decode Strict cs = (if Undecodable \<in> set cs then Inl UnicodeDecodeError else Inr (lossy_text cs))"
proof (induction cs)
  case Nil
  then show ?case by (simp add: lossy_text_def)
next
  case (Cons c cs)
  then show ?case by (cases c) (simp_all add: lossy_text_def)
qed

lemma read_or_replace_readable:
  "read_or_replace (File True cs) = Inr (universal_newlines (lossy_text cs))"
  by (simp add: read_or_replace_def read_text_def decode_Replace decode_Strict)

lemma read_or_replace_unreadable:
  "read_or_replace (File False cs) = Inl PermissionError"
  by (simp add: read_or_replace_def read_text_def)

lemma collect_loop_Inr:
  "collect_loop es acc = Inr pairs \<Longrightarrow>
     pairs = acc @ map entry_pair (filter eligible es) \<and>
     (\<forall>en \<in> set es. eligible en \<longrightarrow> (\<exists>d. read_or_replace (snd en) = Inr d))"
proof (induction es acc rule: collect_loop.induct)
  case (1 pairs)
  then show ?case by simp
next
  case (2 p n rest acc)
  show ?case
  proof (cases "eligible (p, n)")
    case False
    then have nel: "\<not> (is_file n \<and> (path_suffix p = ''.sl'' \<or> path_suffix p = ''.swz''))"
      by (simp add: eligible_def)
    with "2.prems" have "collect_loop rest acc = Inr pairs" by simp
    from "2.IH"(2)[OF nel this] False show ?thesis by simp
  next
    case True
    then have el: "is_file n \<and> (path_suffix p = ''.sl'' \<or> path_suffix p = ''.swz'')"
      by (simp add: eligible_def)
    from "2.prems" el obtain d where d: "read_or_replace n = Inr d"
      and rest: "collect_loop rest (acc @ [(as_posix p, d)]) = Inr pairs"
      by (auto simp: Let_def split: sum.splits)
    from "2.IH"(1)[OF el refl d rest] True d show ?thesis
      by (simp add: entry_pair_def)
  qed
qed


lemma filter_same_key:
  "distinct (map f xs) \<Longrightarrow> k \<in> set xs \<Longrightarrow> filter (\<lambda>x. f k = f x) xs = [k]"
proof (induction xs)
  case Nil
  then show ?case by simp
next
  case (Cons a xs)
  then show ?case by (auto simp: filter_empty_conv image_iff)
qed

lemma sort_key_permutation:
  fixes f :: "'a \<Rightarrow> 'k::linorder"
  assumes "mset xs = mset ys" and "distinct (map f xs)"
  shows "sort_key f xs = sort_key f ys"
proof (rule properties_for_sort_key)
  show "mset (sort_key f ys) = mset xs" using assms(1) by simp
  show "sorted (map f (sort_key f ys))" by simp
  fix k assume k: "k \<in> set (sort_key f ys)"
  have "mset (map f (sort_key f ys)) = mset (map f xs)" using assms(1) by simp
  then have dy: "distinct (map f (sort_key f ys))"
    using assms(2) by (metis mset_eq_imp_distinct_iff)
  have kx: "k \<in> set xs" using k assms(1) by (metis mset_eq_setD set_sort)
  show "filter (\<lambda>x. f k = f x) (sort_key f ys) = filter (\<lambda>x. f k = f x) xs"
    using filter_same_key[OF dy k] filter_same_key[OF assms(2) kx] by simp
qed

lemma universal_newlines_no_CR: "CR \<notin> set (universal_newlines t)"
  by (induction t rule: universal_newlines.induct) auto

text \<open>
  A collected file in the document: its pair stands among the pairs, with the text of
  the file as it was read, and the document holds the rows of that pair between the rows
  of the pairs before it and of those after it.
\<close>

lemma collected_file_document:
  assumes "collect_files (Some entries) = Inr pairs"
    and "(p, File r cs) \<in> set entries"
    and "path_suffix p = ''.sl'' \<or> path_suffix p = ''.swz''"
  shows "\<exists>stem ext before after.
      (ext = ''.sl'' \<or> ext = ''.swz'') \<and> r \<and> p \<noteq> [] \<and> join ''/'' p = stem @ ext
      \<and> pairs = before @ (stem @ ext, universal_newlines (lossy_text cs)) # after
      \<and> emit_pair [] (stem @ ext, universal_newlines (lossy_text cs)) =
        [table_row (stem @ ext) (cpp_escape (universal_newlines (lossy_text cs))),
         table_row stem (cpp_escape (universal_newlines (lossy_text cs))),
         table_row (''swazi:'' @ stem) (cpp_escape (universal_newlines (lossy_text cs)))]
      \<and> generate_content pairs =
        concat header_parts @ concat (concat (map (emit_pair []) before))
        @ table_row (stem @ ext) (cpp_escape (universal_newlines (lossy_text cs)))
        @ table_row stem (cpp_escape (universal_newlines (lossy_text cs)))
        @ table_row (''swazi:'' @ stem) (cpp_escape (universal_newlines (lossy_text cs)))
        @ concat (concat (map (emit_pair []) after)) @ concat footer_parts"
proof -
  let ?en = "(p, File r cs)"
  let ?sorted = "sort_key fst entries"
  let ?data = "universal_newlines (lossy_text cs)"
  have el: "eligible ?en" using assms(3) by (simp add: eligible_def)
  from assms(1) have loop: "collect_loop ?sorted [] = Inr pairs"
    by (simp add: collect_files_def)
  have mem: "?en \<in> set ?sorted" using assms(2) by simp
  from collect_loop_Inr[OF loop] mem el obtain d where
    d: "read_or_replace (File r cs) = Inr d"
    and pairs: "pairs = map entry_pair (filter eligible ?sorted)" by auto
  have r: r
  proof (rule ccontr)
    assume "\<not> r"
    then have "read_or_replace (File r cs) = Inl PermissionError"
      by (simp add: read_or_replace_unreadable)
    with d show False by simp
  qed
  with d have data: "read_or_replace (File r cs) = Inr ?data"
    by (simp add: read_or_replace_readable)
  have pne: "p \<noteq> []"
    using assms(3) by (auto simp: path_suffix_def path_name_def rfind_def)
  from assms(3) obtain stem ext where ext: "ext = ''.sl'' \<or> ext = ''.swz''"
    and stem: "as_posix p = stem @ ext"
    using path_suffix_stem[of p "CHR ''.''" "''sl''"] path_suffix_stem[of p "CHR ''.''" "''swz''"]
    by auto
  with pne have j: "join ''/'' p = stem @ ext" by (simp add: as_posix_def)
  from mem el have "?en \<in> set (filter eligible ?sorted)" by simp
  then obtain xs ys where split: "filter eligible ?sorted = xs @ ?en # ys"
    by (meson split_list)
  have ep: "entry_pair ?en = (stem @ ext, ?data)" by (simp add: entry_pair_def data stem)
  have pairs': "pairs = map entry_pair xs @ (stem @ ext, ?data) # map entry_pair ys"
    by (simp add: pairs split ep)
  have rows: "emit_pair [] (stem @ ext, ?data) =
        [table_row (stem @ ext) (cpp_escape ?data),
         table_row stem (cpp_escape ?data),
         table_row (''swazi:'' @ stem) (cpp_escape ?data)]"
    using ext emit_pair_sl[of "[]" stem ?data] emit_pair_swz[of "[]" stem ?data] by auto
  have doc: "generate_content pairs =
        concat header_parts @ concat (concat (map (emit_pair []) (map entry_pair xs)))
        @ table_row (stem @ ext) (cpp_escape ?data)
        @ table_row stem (cpp_escape ?data)
        @ table_row (''swazi:'' @ stem) (cpp_escape ?data)
        @ concat (concat (map (emit_pair []) (map entry_pair ys))) @ concat footer_parts"
    unfolding generate_content_rows pairs' using rows by simp
  from ext r pne j pairs' rows doc show ?thesis by blast
qed

lemma text_as_read_decodes:
  "cpp_decode (cpp_escape (universal_newlines t)) = Some (universal_newlines t)"
proof -
  have "filter (\<lambda>c. c \<noteq> CR) (universal_newlines t) = universal_newlines t"
    using universal_newlines_no_CR[of t] by (auto simp: filter_id_conv)
  then show ?thesis
    by (simp add: cpp_decode_def cpp_escape_chars literal_body_escaped)
qed

text \<open>
  C1, amended. Every collected file (a regular file below the root whose suffix is
  \<^verbatim>\<open>.sl\<close> or \<^verbatim>\<open>.swz\<close>) contributes one pair, and the table of the document holds
  exactly three rows for it, one after the other and spelled out below: keyed by the
  relative path, by the path without the extension, and by that stripped path after
  \<^verbatim>\<open>swazi:\<close>. The three rows carry one and the same escaped text, and that literal
  denotes the content of the file as it was read in text mode: ill-formed byte sequences
  replaced, \<^verbatim>\<open>\r\n\<close> and \<^verbatim>\<open>\r\<close> read as \<^verbatim>\<open>\n\<close>.
\<close>

theorem collected_file_three_rows:
  assumes "collect_files (Some entries) = Inr pairs"
    and "(p, File r cs) \<in> set entries"
    and "path_suffix p = ''.sl'' \<or> path_suffix p = ''.swz''"
  shows "\<exists>stem ext esc before after.
      (ext = ''.sl'' \<or> ext = ''.swz'')
      \<and> as_posix p = stem @ ext
      \<and> esc = cpp_escape (universal_newlines (lossy_text cs))
      \<and> cpp_decode esc = Some (universal_newlines (lossy_text cs))
      \<and> pairs = before @ (stem @ ext, universal_newlines (lossy_text cs)) # after
      \<and> emit_pair [] (stem @ ext, universal_newlines (lossy_text cs)) =
        [''    { '' @ [DQ] @ stem @ ext @ [DQ] @ '', '' @ [DQ] @ esc @ [DQ] @ '' },'' @ [LF],
         ''    { '' @ [DQ] @ stem @ [DQ] @ '', '' @ [DQ] @ esc @ [DQ] @ '' },'' @ [LF],
         ''    { '' @ [DQ] @ ''swazi:'' @ stem @ [DQ] @ '', '' @ [DQ] @ esc @ [DQ] @ '' },'' @ [LF]]
      \<and> generate_content pairs =
        concat header_parts @ concat (concat (map (emit_pair []) before))
        @ ''    { '' @ [DQ] @ stem @ ext @ [DQ] @ '', '' @ [DQ] @ esc @ [DQ] @ '' },'' @ [LF]
        @ ''    { '' @ [DQ] @ stem @ [DQ] @ '', '' @ [DQ] @ esc @ [DQ] @ '' },'' @ [LF]
        @ ''    { '' @ [DQ] @ ''swazi:'' @ stem @ [DQ] @ '', '' @ [DQ] @ esc @ [DQ] @ '' },'' @ [LF]
        @ concat (concat (map (emit_pair []) after)) @ concat footer_parts"
proof -
  let ?data = "universal_newlines (lossy_text cs)"
  from collected_file_document[OF assms] obtain stem ext before after where
    ext: "ext = ''.sl'' \<or> ext = ''.swz''" and pne: "p \<noteq> []"
    and j: "join ''/'' p = stem @ ext"
    and pairs: "pairs = before @ (stem @ ext, ?data) # after"
    and rows: "emit_pair [] (stem @ ext, ?data) =
        [table_row (stem @ ext) (cpp_escape ?data),
         table_row stem (cpp_escape ?data),
         table_row (''swazi:'' @ stem) (cpp_escape ?data)]"
    and doc: "generate_content pairs =
        concat header_parts @ concat (concat (map (emit_pair []) before))
        @ table_row (stem @ ext) (cpp_escape ?data)
        @ table_row stem (cpp_escape ?data)
        @ table_row (''swazi:'' @ stem) (cpp_escape ?data)
        @ concat (concat (map (emit_pair []) after)) @ concat footer_parts"
    by blast
  have a: "as_posix p = stem @ ext" using pne j by (simp add: as_posix_def)
  have dec: "cpp_decode (cpp_escape ?data) = Some ?data" by (rule text_as_read_decodes)
  from ext a dec pairs rows[unfolded table_row_def] doc[unfolded table_row_def]
  show ?thesis by (intro exI[of _ stem] exI[of _ ext] exI[of _ "cpp_escape ?data"]
      exI[of _ before] exI[of _ after]) simp
qed

lemma stem_of_sl:
  assumes "ext = ''.sl'' \<or> ext = ''.swz''" and "stem @ ext = x @ ''.sl''"
  shows "stem = x \<and> ext = ''.sl''"
  using assms(1)
proof
  assume "ext = ''.sl''"
  with assms(2) show ?thesis by simp
next
  assume e: "ext = ''.swz''"
  from assms(2) have "last (stem @ ext) = last (x @ ''.sl'')" by simp
  with e show ?thesis by simp
qed

lemma singleton_split:
  assumes "[a] = before @ b # after"
  shows "before = [] \<and> after = [] \<and> b = a"
  using assms by (cases before) auto

text \<open>
  The file \<^verbatim>\<open>pkg/foo.sl\<close> holding \<^verbatim>\<open>x\r\n\<close>: the whole document.
\<close>

theorem collected_file_three_rows_witness:
  "collect_files (Some [([''pkg'', ''foo.sl''], File True [Chr (CHR ''x''), Chr CR, Chr LF])])
      = Inr [(''pkg/foo.sl'', [CHR ''x'', LF])]
   \<and> path_suffix [''pkg'', ''foo.sl''] = ''.sl''
   \<and> generate_content [(''pkg/foo.sl'', [CHR ''x'', LF])] =
        concat header_parts
        @ ''    { '' @ [DQ] @ ''pkg/foo.sl'' @ [DQ] @ '', '' @ [DQ] @ ''x'' @ [BS] @ ''n'' @ [DQ, LF, DQ] @ [DQ] @ '' },'' @ [LF]
        @ ''    { '' @ [DQ] @ ''pkg/foo'' @ [DQ] @ '', '' @ [DQ] @ ''x'' @ [BS] @ ''n'' @ [DQ, LF, DQ] @ [DQ] @ '' },'' @ [LF]
        @ ''    { '' @ [DQ] @ ''swazi:pkg/foo'' @ [DQ] @ '', '' @ [DQ] @ ''x'' @ [BS] @ ''n'' @ [DQ, LF, DQ] @ [DQ] @ '' },'' @ [LF]
        @ concat footer_parts
   \<and> cpp_decode (''x'' @ [BS] @ ''n'' @ [DQ, LF, DQ]) = Some [CHR ''x'', LF]"
proof -
  let ?p = "[''pkg'', ''foo.sl'']"
  let ?cs = "[Chr (CHR ''x''), Chr CR, Chr LF]"
  let ?pairs = "[(''pkg/foo.sl'', [CHR ''x'', LF])]"
  have s: "path_suffix ?p = ''.sl''"
    by (simp add: path_suffix_def path_name_def rfind_def)
  have lt: "universal_newlines (lossy_text ?cs) = [CHR ''x'', LF]"
    by (simp add: lossy_text_def)
  have c: "collect_files (Some [(?p, File True ?cs)]) = Inr ?pairs"
    by (simp add: collect_files_def s read_or_replace_readable lt as_posix_def)
  have m: "(?p, File True ?cs) \<in> set [(?p, File True ?cs)]" by simp
  have ap: "as_posix ?p = ''pkg/foo'' @ ''.sl''" by (simp add: as_posix_def)
  have e: "cpp_escape [CHR ''x'', LF] = ''x'' @ [BS] @ ''n'' @ [DQ, LF, DQ]"
    by (simp add: cpp_escape_def)
  from collected_file_three_rows[OF c m disjI1[OF s]] obtain stem ext esc before after where
    ext: "ext = ''.sl'' \<or> ext = ''.swz''"
    and a: "as_posix ?p = stem @ ext"
    and esc: "esc = cpp_escape (universal_newlines (lossy_text ?cs))"
    and dec: "cpp_decode esc = Some (universal_newlines (lossy_text ?cs))"
    and pairs: "?pairs = before @ (stem @ ext, universal_newlines (lossy_text ?cs)) # after"
    and doc: "generate_content ?pairs =
        concat header_parts @ concat (concat (map (emit_pair []) before))
        @ ''    { '' @ [DQ] @ stem @ ext @ [DQ] @ '', '' @ [DQ] @ esc @ [DQ] @ '' },'' @ [LF]
        @ ''    { '' @ [DQ] @ stem @ [DQ] @ '', '' @ [DQ] @ esc @ [DQ] @ '' },'' @ [LF]
        @ ''    { '' @ [DQ] @ ''swazi:'' @ stem @ [DQ] @ '', '' @ [DQ] @ esc @ [DQ] @ '' },'' @ [LF]
        @ concat (concat (map (emit_pair []) after)) @ concat footer_parts"
    by blast
  from a ap have "stem @ ext = ''pkg/foo'' @ ''.sl''" by (simp only:)
  from stem_of_sl[OF ext this] have st: "stem = ''pkg/foo''" "ext = ''.sl''"
    by simp_all
  from singleton_split[OF pairs] have ba: "before = []" "after = []" by simp_all
  have esc': "esc = ''x'' @ [BS] @ ''n'' @ [DQ, LF, DQ]" using esc lt e by simp
  from doc dec c s show ?thesis unfolding st ba esc' lt by simp
qed

text \<open>
  C1 as stated fails: the rows do not carry the exact content. A file holding
  \<^verbatim>\<open>a\rb\<close> is read as \<^verbatim>\<open>a\nb\<close>; its rows carry a literal that denotes
  \<^verbatim>\<open>a\nb\<close>, where the escaping of the exact content would denote \<^verbatim>\<open>ab\<close>.
\<close>

theorem lone_carriage_return_becomes_line_feed:
  "collect_files (Some [([''m.sl''], File True [Chr (CHR ''a''), Chr CR, Chr (CHR ''b'')])])
      = Inr [(''m.sl'', [CHR ''a'', LF, CHR ''b''])]
   \<and> generate_content [(''m.sl'', [CHR ''a'', LF, CHR ''b''])] =
        concat header_parts
        @ ''    { '' @ [DQ] @ ''m.sl'' @ [DQ] @ '', '' @ [DQ] @ ''a'' @ [BS] @ ''n'' @ [DQ, LF, DQ] @ ''b'' @ [DQ] @ '' },'' @ [LF]
        @ ''    { '' @ [DQ] @ ''m'' @ [DQ] @ '', '' @ [DQ] @ ''a'' @ [BS] @ ''n'' @ [DQ, LF, DQ] @ ''b'' @ [DQ] @ '' },'' @ [LF]
        @ ''    { '' @ [DQ] @ ''swazi:m'' @ [DQ] @ '', '' @ [DQ] @ ''a'' @ [BS] @ ''n'' @ [DQ, LF, DQ] @ ''b'' @ [DQ] @ '' },'' @ [LF]
        @ concat footer_parts
   \<and> cpp_decode (''a'' @ [BS] @ ''n'' @ [DQ, LF, DQ] @ ''b'') = Some [CHR ''a'', LF, CHR ''b'']
   \<and> cpp_escape [CHR ''a'', CR, CHR ''b''] = ''ab''
   \<and> cpp_decode (cpp_escape [CHR ''a'', CR, CHR ''b'']) = Some ''ab''"
proof -
  have s: "path_suffix [''m.sl''] = ''.sl''"
    by (simp add: path_suffix_def path_name_def rfind_def)
  have c: "collect_files (Some [([''m.sl''], File True [Chr (CHR ''a''), Chr CR, Chr (CHR ''b'')])])
      = Inr [(''m.sl'', [CHR ''a'', LF, CHR ''b''])]"
    by (simp add: collect_files_def s read_or_replace_readable lossy_text_def as_posix_def)
  have g: "generate_content [(''m.sl'', [CHR ''a'', LF, CHR ''b''])] =
        concat header_parts
        @ ''    { '' @ [DQ] @ ''m.sl'' @ [DQ] @ '', '' @ [DQ] @ ''a'' @ [BS] @ ''n'' @ [DQ, LF, DQ] @ ''b'' @ [DQ] @ '' },'' @ [LF]
        @ ''    { '' @ [DQ] @ ''m'' @ [DQ] @ '', '' @ [DQ] @ ''a'' @ [BS] @ ''n'' @ [DQ, LF, DQ] @ ''b'' @ [DQ] @ '' },'' @ [LF]
        @ ''    { '' @ [DQ] @ ''swazi:m'' @ [DQ] @ '', '' @ [DQ] @ ''a'' @ [BS] @ ''n'' @ [DQ, LF, DQ] @ ''b'' @ [DQ] @ '' },'' @ [LF]
        @ concat footer_parts"
    using emit_pair_sl[of "[]" "''m''" "[CHR ''a'', LF, CHR ''b'']"]
    by (simp add: generate_content_rows table_row_def cpp_escape_def)
  have d: "cpp_decode (''a'' @ [BS] @ ''n'' @ [DQ, LF, DQ] @ ''b'') = Some [CHR ''a'', LF, CHR ''b'']"
    by (simp add: cpp_decode_def)
  have e: "cpp_escape [CHR ''a'', CR, CHR ''b''] = ''ab''" by (simp add: cpp_escape_def)
  have f: "cpp_decode (cpp_escape [CHR ''a'', CR, CHR ''b'']) = Some ''ab''"
    by (simp add: e cpp_decode_def)
  from c g d e f show ?thesis by blast
qed

text \<open>
  Escaping changes every string that holds a double quote or a backslash.
\<close>

lemma count_backslash_escaped:
  "count_list (cpp_escape s) BS = 2 * count_list s BS + count_list s DQ + count_list s LF"
  by (induction s) (simp_all add: cpp_escape_chars escape_char_def)

lemma cpp_escape_changes:
  assumes "DQ \<in> set s \<or> BS \<in> set s"
  shows "cpp_escape s \<noteq> s"
proof
  assume "cpp_escape s = s"
  then have "count_list s BS = 2 * count_list s BS + count_list s DQ + count_list s LF"
    using count_backslash_escaped[of s] by simp
  then have "count_list s BS = 0" "count_list s DQ = 0" by simp_all
  then have "BS \<notin> set s" "DQ \<notin> set s" by (simp_all add: count_list_0_iff)
  with assms show False by blast
qed

text \<open>
  C10. Only the content is escaped. For every collected file the three rows of the
  document hold, between the quotes of the key position, the components of its path
  joined by \<^verbatim>\<open>/\<close>, that text without the extension, and the latter after
  \<^verbatim>\<open>swazi:\<close>, each exactly as it is and whatever characters it contains, while the
  content position holds the escaped content. A path with a double quote or a backslash
  therefore stands in the key otherwise than its escaped form would.
\<close>

theorem keys_inserted_verbatim:
  assumes "collect_files (Some entries) = Inr pairs"
    and "(p, File r cs) \<in> set entries"
    and "path_suffix p = ''.sl'' \<or> path_suffix p = ''.swz''"
  shows "\<exists>stem ext data before after.
      (ext = ''.sl'' \<or> ext = ''.swz'')
      \<and> join ''/'' p = stem @ ext
      \<and> pairs = before @ (join ''/'' p, data) # after
      \<and> generate_content pairs =
        concat header_parts @ concat (concat (map (emit_pair []) before))
        @ ''    { '' @ [DQ] @ join ''/'' p @ [DQ] @ '', '' @ [DQ] @ cpp_escape data @ [DQ] @ '' },'' @ [LF]
        @ ''    { '' @ [DQ] @ stem @ [DQ] @ '', '' @ [DQ] @ cpp_escape data @ [DQ] @ '' },'' @ [LF]
        @ ''    { '' @ [DQ] @ ''swazi:'' @ stem @ [DQ] @ '', '' @ [DQ] @ cpp_escape data @ [DQ] @ '' },'' @ [LF]
        @ concat (concat (map (emit_pair []) after)) @ concat footer_parts
      \<and> (DQ \<in> set (join ''/'' p) \<or> BS \<in> set (join ''/'' p)
            \<longrightarrow> cpp_escape (join ''/'' p) \<noteq> join ''/'' p)"
proof -
  let ?data = "universal_newlines (lossy_text cs)"
  from collected_file_document[OF assms] obtain stem ext before after where
    ext: "ext = ''.sl'' \<or> ext = ''.swz''"
    and j: "join ''/'' p = stem @ ext"
    and pairs: "pairs = before @ (stem @ ext, ?data) # after"
    and doc: "generate_content pairs =
        concat header_parts @ concat (concat (map (emit_pair []) before))
        @ table_row (stem @ ext) (cpp_escape ?data)
        @ table_row stem (cpp_escape ?data)
        @ table_row (''swazi:'' @ stem) (cpp_escape ?data)
        @ concat (concat (map (emit_pair []) after)) @ concat footer_parts"
    by blast
  have ch: "DQ \<in> set (join ''/'' p) \<or> BS \<in> set (join ''/'' p)
            \<longrightarrow> cpp_escape (join ''/'' p) \<noteq> join ''/'' p"
    using cpp_escape_changes by blast
  from ext j pairs doc[unfolded table_row_def] ch
  show ?thesis
    by (intro exI[of _ stem] exI[of _ ext] exI[of _ ?data] exI[of _ before] exI[of _ after])
       simp
qed

text \<open>
  A file whose name holds a double quote and a backslash: both stand raw in the three
  keys of the document, while the double quote of the content is escaped.
\<close>

theorem keys_inserted_verbatim_witness:
  "collect_files (Some [([CHR ''a'' # DQ # CHR ''b'' # BS # ''.sl''], File True [Chr DQ])])
      = Inr [(CHR ''a'' # DQ # CHR ''b'' # BS # ''.sl'', [DQ])]
   \<and> path_suffix [CHR ''a'' # DQ # CHR ''b'' # BS # ''.sl''] = ''.sl''
   \<and> generate_content [(CHR ''a'' # DQ # CHR ''b'' # BS # ''.sl'', [DQ])] =
        concat header_parts
        @ ''    { '' @ [DQ] @ ''a'' @ [DQ] @ ''b'' @ [BS] @ ''.sl'' @ [DQ] @ '', '' @ [DQ] @ [BS, DQ] @ [DQ] @ '' },'' @ [LF]
        @ ''    { '' @ [DQ] @ ''a'' @ [DQ] @ ''b'' @ [BS] @ [DQ] @ '', '' @ [DQ] @ [BS, DQ] @ [DQ] @ '' },'' @ [LF]
        @ ''    { '' @ [DQ] @ ''swazi:a'' @ [DQ] @ ''b'' @ [BS] @ [DQ] @ '', '' @ [DQ] @ [BS, DQ] @ [DQ] @ '' },'' @ [LF]
        @ concat footer_parts
   \<and> cpp_escape (CHR ''a'' # DQ # CHR ''b'' # BS # ''.sl'') \<noteq> CHR ''a'' # DQ # CHR ''b'' # BS # ''.sl''"
proof -
  let ?name = "CHR ''a'' # DQ # CHR ''b'' # BS # ''.sl''"
  let ?p = "[?name]"
  let ?cs = "[Chr DQ]"
  let ?pairs = "[(?name, [DQ])]"
  have s: "path_suffix ?p = ''.sl''"
    by (simp add: path_suffix_def path_name_def rfind_def)
  have lt: "universal_newlines (lossy_text ?cs) = [DQ]"
    by (simp add: lossy_text_def)
  have c: "collect_files (Some [(?p, File True ?cs)]) = Inr ?pairs"
    by (simp add: collect_files_def s read_or_replace_readable lt as_posix_def)
  have m: "(?p, File True ?cs) \<in> set [(?p, File True ?cs)]" by simp
  have jp: "join ''/'' ?p = [CHR ''a'', DQ, CHR ''b'', BS] @ ''.sl''" by simp
  have e: "cpp_escape [DQ] = [BS, DQ]" by (simp add: cpp_escape_def)
  from keys_inserted_verbatim[OF c m disjI1[OF s]] obtain stem ext data before after where
    ext: "ext = ''.sl'' \<or> ext = ''.swz''"
    and j: "join ''/'' ?p = stem @ ext"
    and pairs: "?pairs = before @ (join ''/'' ?p, data) # after"
    and doc: "generate_content ?pairs =
        concat header_parts @ concat (concat (map (emit_pair []) before))
        @ ''    { '' @ [DQ] @ join ''/'' ?p @ [DQ] @ '', '' @ [DQ] @ cpp_escape data @ [DQ] @ '' },'' @ [LF]
        @ ''    { '' @ [DQ] @ stem @ [DQ] @ '', '' @ [DQ] @ cpp_escape data @ [DQ] @ '' },'' @ [LF]
        @ ''    { '' @ [DQ] @ ''swazi:'' @ stem @ [DQ] @ '', '' @ [DQ] @ cpp_escape data @ [DQ] @ '' },'' @ [LF]
        @ concat (concat (map (emit_pair []) after)) @ concat footer_parts"
    and ch: "DQ \<in> set (join ''/'' ?p) \<or> BS \<in> set (join ''/'' ?p)
            \<longrightarrow> cpp_escape (join ''/'' ?p) \<noteq> join ''/'' ?p"
    by blast
  from j jp have "stem @ ext = [CHR ''a'', DQ, CHR ''b'', BS] @ ''.sl''" by (simp only:)
  from stem_of_sl[OF ext this] have st: "stem = [CHR ''a'', DQ, CHR ''b'', BS]" by simp
  from singleton_split[OF pairs] have ba: "before = []" "after = []" and d: "data = [DQ]"
    by simp_all
  from ch have ne: "cpp_escape ?name \<noteq> ?name" by simp
  from doc c s ne show ?thesis unfolding st ba d e by simp
qed

text \<open>
  C5. Two enumerations of the same tree, in whatever order the operating system yields
  the entries (one node per path), give the same collected pairs, hence the same
  document, and the whole run behaves the same.
\<close>

theorem enumeration_order_irrelevant:
  assumes "mset entries1 = mset entries2" and "distinct (map fst entries1)"
  shows "collect_files (Some entries1) = collect_files (Some entries2)
     \<and> map_sum id generate_content (collect_files (Some entries1))
       = map_sum id generate_content (collect_files (Some entries2))
     \<and> main e (Some entries1) out_cpp fs = main e (Some entries2) out_cpp fs"
proof -
  have "sort_key fst entries1 = sort_key fst entries2"
    using assms by (rule sort_key_permutation)
  then have "collect_files (Some entries1) = collect_files (Some entries2)"
    by (simp add: collect_files_def)
  then show ?thesis by (simp add: main_def)
qed

text \<open>Two files enumerated in both orders.\<close>

theorem enumeration_order_irrelevant_witness:
  "mset [([''b.sl''], File True [Chr (CHR ''y'')]), ([''a.sl''], File True [Chr (CHR ''x'')])]
     = mset [([''a.sl''], File True [Chr (CHR ''x'')]), ([''b.sl''], File True [Chr (CHR ''y'')])]
   \<and> distinct (map fst [([''b.sl''], File True [Chr (CHR ''y'')]), ([''a.sl''], File True [Chr (CHR ''x'')])])
   \<and> collect_files (Some [([''b.sl''], File True [Chr (CHR ''y'')]), ([''a.sl''], File True [Chr (CHR ''x'')])])
     = Inr [(''a.sl'', ''x''), (''b.sl'', ''y'')]
   \<and> collect_files (Some [([''a.sl''], File True [Chr (CHR ''x'')]), ([''b.sl''], File True [Chr (CHR ''y'')])])
     = Inr [(''a.sl'', ''x''), (''b.sl'', ''y'')]
   \<and> main posix_env (Some [([''b.sl''], File True [Chr (CHR ''y'')]), ([''a.sl''], File True [Chr (CHR ''x'')])]) [''out.cpp''] Map.empty
     = main posix_env (Some [([''a.sl''], File True [Chr (CHR ''x'')]), ([''b.sl''], File True [Chr (CHR ''y'')])]) [''out.cpp''] Map.empty"
proof -
  let ?e1 = "[([''b.sl''], File True [Chr (CHR ''y'')]), ([''a.sl''], File True [Chr (CHR ''x'')])]"
  let ?e2 = "[([''a.sl''], File True [Chr (CHR ''x'')]), ([''b.sl''], File True [Chr (CHR ''y'')])]"
  have m: "mset ?e1 = mset ?e2" by (simp add: add_mset_commute)
  have d: "distinct (map fst ?e1)" by simp
  have sa: "path_suffix [''a.sl''] = ''.sl''" and sb: "path_suffix [''b.sl''] = ''.sl''"
    by (simp_all add: path_suffix_def path_name_def rfind_def)
  have c2: "collect_files (Some ?e2) = Inr [(''a.sl'', ''x''), (''b.sl'', ''y'')]"
    by (simp add: collect_files_def sa sb read_or_replace_readable lossy_text_def as_posix_def)
  from enumeration_order_irrelevant[OF m d, of posix_env "[''out.cpp'']" Map.empty] m d c2
  show ?thesis by simp
qed




text \<open>
  Creating the ancestors changes nothing that exists: it only puts directories where
  nothing was.
\<close>

lemma mkdirs_effect:
  "mkdirs qs fs = (r, fs') \<Longrightarrow> fs' q = fs q \<or> (fs q = None \<and> q \<in> set qs \<and> fs' q = Some Dir)"
proof (induction qs arbitrary: fs)
  case Nil
  then show ?case by simp
next
  case (Cons a qs)
  show ?case
  proof (cases "fs a")
    case None
    with Cons.prems have "mkdirs qs (fs(a \<mapsto> Dir)) = (r, fs')" by simp
    from Cons.IH[OF this] None show ?thesis by (auto split: if_splits)
  next
    case (Some n)
    show ?thesis
    proof (cases n)
      case Dir
      with Some Cons.prems have "mkdirs qs fs = (r, fs')" by simp
      from Cons.IH[OF this] show ?thesis by auto
    next
      case (File x y)
      with Some Cons.prems show ?thesis by simp
    qed
  qed
qed

lemma mkdirs_success:
  "mkdirs qs fs = (None, fs') \<Longrightarrow> q \<in> set qs \<Longrightarrow> fs' q = Some Dir"
proof (induction qs arbitrary: fs)
  case Nil
  then show ?case by simp
next
  case (Cons a qs)
  show ?case
  proof (cases "fs a")
    case None
    with Cons.prems have m: "mkdirs qs (fs(a \<mapsto> Dir)) = (None, fs')" by simp
    show ?thesis
    proof (cases "q \<in> set qs")
      case True
      from Cons.IH[OF m True] show ?thesis .
    next
      case False
      with Cons.prems have "q = a" by simp
      with mkdirs_effect[OF m, of a] show ?thesis by auto
    qed
  next
    case (Some n)
    show ?thesis
    proof (cases n)
      case Dir
      with Some Cons.prems have m: "mkdirs qs fs = (None, fs')" by simp
      show ?thesis
      proof (cases "q \<in> set qs")
        case True
        from Cons.IH[OF m True] show ?thesis .
      next
        case False
        with Cons.prems have "q = a" by simp
        with mkdirs_effect[OF m, of a] Some Dir show ?thesis by auto
      qed
    next
      case (File x y)
      with Some Cons.prems show ?thesis by simp
    qed
  qed
qed

lemma mkdirs_present:
  "\<forall>q \<in> set qs. fs q = Some Dir \<Longrightarrow> mkdirs qs fs = (None, fs)"
  by (induction qs) simp_all

lemma not_ancestor:
  "length q > length d \<Longrightarrow> q \<notin> set (tl (prefixes d))"
proof
  assume l: "length q > length d" and "q \<in> set (tl (prefixes d))"
  then have "q \<in> set (prefixes d)" by (metis list.sel(2) list.set_sel(2))
  then have "prefix q d" by simp
  then have "length q \<le> length d" by (rule prefix_length_le)
  with l show False by simp
qed

lemma target_not_ancestor: "p \<notin> set (tl (prefixes (parent p)))"
proof (cases "p = []")
  case True
  then show ?thesis by (simp add: parent_def)
next
  case False
  then have "length p > length (parent p)" by (simp add: parent_def)
  then show ?thesis by (rule not_ancestor)
qed

lemma tmp_not_ancestor: "parent p @ [x] \<notin> set (tl (prefixes (parent p)))"
  by (rule not_ancestor) simp

lemma tmp_not_target: "s \<noteq> [] \<Longrightarrow> parent p @ [path_name p @ s] \<noteq> p"
proof
  assume s: "s \<noteq> []" and eq: "parent p @ [path_name p @ s] = p"
  then have pne: "p \<noteq> []" by auto
  then have "p = butlast p @ [last p]" by simp
  with eq have "butlast p @ [last p @ s] = butlast p @ [last p]"
    using pne by (simp add: parent_def path_name_def)
  then show False using s by simp
qed

lemma mkstemp_result:
  assumes "mkstemp e fs d name = Inr (tmp, fs2)"
  shows "\<exists>s \<in> set (tmp_suffixes e). tmp = d @ [name @ s] \<and> fs tmp = None
         \<and> fs2 = fs(tmp \<mapsto> File True [])"
proof -
  from assms obtain s where f: "find (\<lambda>s. fs (d @ [name @ s]) = None) (tmp_suffixes e) = Some s"
    and r: "tmp = d @ [name @ s]" "fs2 = fs(d @ [name @ s] \<mapsto> File True [])"
    by (auto simp: mkstemp_def split: if_splits option.splits)
  from f have "s \<in> set (tmp_suffixes e)" "fs (d @ [name @ s]) = None"
    by (auto simp: find_Some_iff)
  with r show ?thesis by auto
qed

lemma write_phase_success:
  assumes ms: "mkstemp e fsa (parent p) (path_name p) = Inr (tmp, fs2)"
    and w: "write_tmp e fs2 tmp content = (None, fs3)"
    and r: "os_replace e fs3 tmp p = (None, fs4)"
    and ne: "[] \<notin> set (tmp_suffixes e)"
  shows "cleanup e fs4 tmp = fsa(p \<mapsto> File True (map Chr (write_newlines (linesep e) content)))"
proof -
  from mkstemp_result[OF ms] obtain s where s: "s \<in> set (tmp_suffixes e)"
    and tmp: "tmp = parent p @ [path_name p @ s]" and free: "fsa tmp = None"
    and fs2: "fs2 = fsa(tmp \<mapsto> File True [])" by blast
  from s ne have "s \<noteq> []" by auto
  then have tp: "tmp \<noteq> p" unfolding tmp by (rule tmp_not_target)
  let ?n = "File True (map Chr (write_newlines (linesep e) content))"
  from w have fs3: "fs3 = fs2(tmp \<mapsto> ?n)"
    by (auto simp: write_tmp_def Let_def split: option.splits if_splits)
  from r fs3 have fs4: "fs4 = (fs3(tmp := None))(p \<mapsto> ?n)"
    by (auto simp: os_replace_def split: if_splits option.splits node.splits)
  have "fs4 tmp = None" using tp by (simp add: fs4)
  then have "cleanup e fs4 tmp = fs4" by (simp add: cleanup_def)
  also have "fs4 = fsa(p \<mapsto> ?n)"
    using free tp by (auto simp: fs4 fs3 fs2 fun_eq_iff)
  finally show ?thesis .
qed

lemma write_phase_failure:
  assumes ms: "mkstemp e fsa (parent p) (path_name p) = Inr (tmp, fs2)"
    and f: "(write_tmp e fs2 tmp content = (Some err, fs3) \<and> fsx = fs3)
          \<or> (write_tmp e fs2 tmp content = (None, fs3) \<and> os_replace e fs3 tmp p = (Some err, fsx))"
  shows "\<exists>cs. fsa tmp = None \<and> fsx = fsa(tmp \<mapsto> File True cs)
          \<and> cleanup e fsx tmp = (if fail_unlink e then fsa(tmp \<mapsto> File True cs) else fsa)"
proof -
  from mkstemp_result[OF ms] have
    free: "fsa tmp = None" and fs2: "fs2 = fsa(tmp \<mapsto> File True [])" by blast+
  have "fs2 = fs2(tmp \<mapsto> File True [])" by (simp add: fs2)
  with f obtain cs where fs3: "fs3 = fs2(tmp \<mapsto> File True cs)"
    by (auto simp: write_tmp_def Let_def split: option.splits if_splits)
  from f have "fsx = fs3"
    by (auto simp: os_replace_def split: if_splits option.splits node.splits)
  then have fsx: "fsx = fsa(tmp \<mapsto> File True cs)" by (simp add: fs3 fs2)
  have "(fsa(tmp \<mapsto> File True cs))(tmp := None) = fsa"
    using free by (auto simp: fun_eq_iff)
  then have "cleanup e fsx tmp = (if fail_unlink e then fsa(tmp \<mapsto> File True cs) else fsa)"
    by (simp add: cleanup_def fsx)
  with free fsx show ?thesis by blast
qed

lemma writer_returns:
  assumes ret: "atomic_write_if_changed e fs p content = (Inr changed, fs', out)"
    and ne: "[] \<notin> set (tmp_suffixes e)"
  shows "\<exists>fsa. mkdir_parents e fs (parent p) = (None, fsa) \<and>
     (if changed
      then existing_text fsa p \<noteq> Some content
         \<and> fs' = fsa(p \<mapsto> File True (map Chr (write_newlines (linesep e) content)))
         \<and> out = [wrote_message p]
      else existing_text fsa p = Some content \<and> fs' = fsa \<and> out = [unchanged_message p])"
proof -
  obtain r fsa where mk: "mkdir_parents e fs (parent p) = (r, fsa)" by (cases "mkdir_parents e fs (parent p)")
  with ret have r: "r = None" by (cases r) (simp_all add: atomic_write_if_changed_def)
  show ?thesis
  proof (cases "existing_text fsa p = Some content")
    case True
    with ret mk r show ?thesis by (simp add: atomic_write_if_changed_def)
  next
    case False
    with ret mk r obtain tmp fs2 where ms: "mkstemp e fsa (parent p) (path_name p) = Inr (tmp, fs2)"
      by (auto simp: atomic_write_if_changed_def split: sum.splits)
    obtain w fs3 where w: "write_tmp e fs2 tmp content = (w, fs3)" by (cases "write_tmp e fs2 tmp content")
    with ret mk r False ms have wn: "w = None"
      by (cases w) (simp_all add: atomic_write_if_changed_def)
    obtain x fs4 where x: "os_replace e fs3 tmp p = (x, fs4)" by (cases "os_replace e fs3 tmp p")
    with ret mk r False ms w wn have xn: "x = None"
      by (cases x) (simp_all add: atomic_write_if_changed_def)
    from ret mk r False ms w wn x xn have res: "changed" "fs' = cleanup e fs4 tmp" "out = [wrote_message p]"
      by (simp_all add: atomic_write_if_changed_def)
    from write_phase_success[OF ms w[unfolded wn] x[unfolded xn] ne] res mk r False
    show ?thesis by simp
  qed
qed

lemma writer_raises:
  assumes ret: "atomic_write_if_changed e fs p content = (Inl err, fs', out)"
  shows "\<exists>r fsa. mkdir_parents e fs (parent p) = (r, fsa) \<and>
     (fs' = fsa \<or>
      (fail_unlink e \<and> (\<exists>s \<in> set (tmp_suffixes e). \<exists>cs.
          fsa (parent p @ [path_name p @ s]) = None
        \<and> fs' = fsa(parent p @ [path_name p @ s] \<mapsto> File True cs))))"
proof -
  obtain r fsa where mk: "mkdir_parents e fs (parent p) = (r, fsa)" by (cases "mkdir_parents e fs (parent p)")
  show ?thesis
  proof (cases r)
    case (Some a)
    with ret mk show ?thesis by (simp add: atomic_write_if_changed_def)
  next
    case None
    note r = this
    from ret mk r have ex: "existing_text fsa p \<noteq> Some content"
      by (auto simp: atomic_write_if_changed_def)
    show ?thesis
    proof (cases "mkstemp e fsa (parent p) (path_name p)")
      case (Inl a)
      with ret mk r ex show ?thesis by (simp add: atomic_write_if_changed_def)
    next
      case (Inr b)
      then obtain tmp fs2 where ms: "mkstemp e fsa (parent p) (path_name p) = Inr (tmp, fs2)"
        by (cases b) simp
      from mkstemp_result[OF ms] obtain s where s: "s \<in> set (tmp_suffixes e)"
        and tmp: "tmp = parent p @ [path_name p @ s]" by blast
      obtain w fs3 where w: "write_tmp e fs2 tmp content = (w, fs3)" by (cases "write_tmp e fs2 tmp content")
      obtain x fs4 where x: "os_replace e fs3 tmp p = (x, fs4)" by (cases "os_replace e fs3 tmp p")
      have "\<exists>fsx. fs' = cleanup e fsx tmp \<and>
          ((write_tmp e fs2 tmp content = (Some err, fs3) \<and> fsx = fs3)
          \<or> (write_tmp e fs2 tmp content = (None, fs3) \<and> os_replace e fs3 tmp p = (Some err, fsx)))"
        using ret mk r ex ms w x
        by (cases w; cases x) (auto simp: atomic_write_if_changed_def)
      then obtain fsx where fin: "fs' = cleanup e fsx tmp"
        and f: "(write_tmp e fs2 tmp content = (Some err, fs3) \<and> fsx = fs3)
          \<or> (write_tmp e fs2 tmp content = (None, fs3) \<and> os_replace e fs3 tmp p = (Some err, fsx))"
        by blast
      from write_phase_failure[OF ms f] obtain cs where
        "fsa tmp = None" "cleanup e fsx tmp = (if fail_unlink e then fsa(tmp \<mapsto> File True cs) else fsa)"
        by blast
      with fin s tmp mk show ?thesis by (cases "fail_unlink e") auto
    qed
  qed
qed

lemma lossy_text_Chr: "lossy_text (map Chr t) = t"
  by (induction t) (simp_all add: lossy_text_def)

lemma existing_text_Some:
  "existing_text fs p = Some t \<longleftrightarrow>
     (\<exists>cs. fs p = Some (File True cs) \<and> Undecodable \<notin> set cs
        \<and> universal_newlines (lossy_text cs) = t)"
proof (cases "fs p")
  case None
  then show ?thesis by (simp add: existing_text_def)
next
  case (Some n)
  then show ?thesis
    by (cases n) (auto simp: existing_text_def read_text_def decode_Strict)
qed

lemma mkdir_parents_effect:
  assumes "mkdir_parents e fs d = (r, fsa)"
  shows "fsa q = fs q \<or> (fs q = None \<and> q \<in> set (tl (prefixes d)) \<and> fsa q = Some Dir)"
proof (cases "fail_mkdir e")
  case True
  with assms show ?thesis by (simp add: mkdir_parents_def)
next
  case False
  with assms have "mkdirs (tl (prefixes d)) fs = (r, fsa)" by (simp add: mkdir_parents_def)
  then show ?thesis by (rule mkdirs_effect)
qed

lemma mkdir_parents_target:
  assumes "mkdir_parents e fs (parent p) = (r, fsa)"
  shows "fsa p = fs p"
  using mkdir_parents_effect[OF assms, of p] target_not_ancestor[of p] by auto

lemma mkdir_parents_tmp:
  assumes "mkdir_parents e fs (parent p) = (r, fsa)"
  shows "fsa (parent p @ [x]) = fs (parent p @ [x])"
  using mkdir_parents_effect[OF assms, of "parent p @ [x]"] tmp_not_ancestor[of p x] by auto


lemma mkdirs_ok:
  "\<forall>q \<in> set qs. fs q = None \<or> fs q = Some Dir \<Longrightarrow> \<exists>fs'. mkdirs qs fs = (None, fs')"
proof (induction qs arbitrary: fs)
  case Nil
  then show ?case by simp
next
  case (Cons a qs)
  show ?case
  proof (cases "fs a")
    case None
    have prem: "\<forall>q \<in> set qs. (fs(a \<mapsto> Dir)) q = None \<or> (fs(a \<mapsto> Dir)) q = Some Dir"
      using Cons.prems by simp
    have step: "mkdirs (a # qs) fs = mkdirs qs (fs(a \<mapsto> Dir))" using None by simp
    show ?thesis unfolding step by (rule Cons.IH[OF prem])
  next
    case (Some n)
    with Cons.prems have n: "n = Dir" by simp
    from Cons.prems have "\<forall>q \<in> set qs. fs q = None \<or> fs q = Some Dir" by simp
    from Cons.IH[OF this] Some n show ?thesis by simp
  qed
qed

lemma parent_is_ancestor: "d \<noteq> [] \<Longrightarrow> d \<in> set (tl (prefixes d))"
proof -
  assume "d \<noteq> []"
  have "d \<in> set (prefixes d)" by simp
  moreover have "prefixes d = [] # tl (prefixes d)" by (cases d) simp_all
  ultimately have "d \<in> set ([] # tl (prefixes d))" by simp
  with \<open>d \<noteq> []\<close> show ?thesis by simp
qed

lemma writer_returns_without_faults:
  assumes nf: "\<not> fail_mkdir e" "\<not> fail_mkstemp e" "fail_write e = None" "\<not> fail_replace e"
    and anc: "\<forall>q \<in> set (tl (prefixes (parent p))). fs q = None \<or> fs q = Some Dir"
    and tgt: "fs p \<noteq> Some Dir"
    and fresh: "\<exists>s \<in> set (tmp_suffixes e). fs (parent p @ [path_name p @ s]) = None"
    and enc: "utf8_encodable content"
  shows "\<exists>changed fs' out. atomic_write_if_changed e fs p content = (Inr changed, fs', out)"
proof -
  from mkdirs_ok[OF anc] obtain fsa where mk0: "mkdirs (tl (prefixes (parent p))) fs = (None, fsa)"
    by blast
  with nf have mk: "mkdir_parents e fs (parent p) = (None, fsa)" by (simp add: mkdir_parents_def)
  show ?thesis
  proof (cases "existing_text fsa p = Some content")
    case True
    with mk show ?thesis by (auto simp: atomic_write_if_changed_def)
  next
    case False
    have dir: "parent p \<noteq> [] \<longrightarrow> fsa (parent p) = Some Dir"
      using mkdirs_success[OF mk0] parent_is_ancestor by blast
    from fresh obtain s0 where "s0 \<in> set (tmp_suffixes e)" "fsa (parent p @ [path_name p @ s0]) = None"
      using mkdir_parents_tmp[OF mk] by auto
    then obtain s where "find (\<lambda>s. fsa (parent p @ [path_name p @ s]) = None) (tmp_suffixes e) = Some s"
      by (cases "find (\<lambda>s. fsa (parent p @ [path_name p @ s]) = None) (tmp_suffixes e)")
         (auto simp: find_None_iff)
    with nf dir obtain tmp fs2 where ms: "mkstemp e fsa (parent p) (path_name p) = Inr (tmp, fs2)"
      and fs2: "fs2 = fsa(tmp \<mapsto> File True [])"
      by (auto simp: mkstemp_def)
    obtain fs3 where w: "write_tmp e fs2 tmp content = (None, fs3)"
      and fs3: "fs3 tmp \<noteq> None" "\<forall>q. q \<noteq> tmp \<longrightarrow> fs3 q = fs2 q"
      using nf enc by (simp add: write_tmp_def Let_def)
    have "fs3 p \<noteq> Some Dir"
    proof (cases "p = tmp")
      case True
      with w nf enc show ?thesis by (auto simp: write_tmp_def Let_def)
    next
      case False
      with fs3 fs2 have "fs3 p = fsa p" by simp
      with tgt mkdir_parents_target[OF mk] show ?thesis by simp
    qed
    with fs3 nf have "fst (os_replace e fs3 tmp p) = None"
      by (auto simp: os_replace_def split: option.splits node.splits)
    then obtain fs4 where x: "os_replace e fs3 tmp p = (None, fs4)"
      by (cases "os_replace e fs3 tmp p") simp
    from mk False ms w x show ?thesis by (auto simp: atomic_write_if_changed_def)
  qed
qed




text \<open>
  A file name that is not UTF-8 gives a document that cannot be encoded: the write
  raises before anything reaches the temporary file, the temporary file is removed and
  the run ends with the exception.
\<close>

lemma ascii_prefix_encodable:
  "is_ascii a \<Longrightarrow> utf8_encodable (a @ b) = utf8_encodable b"
  by (induction a) (simp_all add: is_ascii_def)

lemma non_utf8_name_cannot_be_written:
  "main posix_env (Some [([CHR 0xFF # ''.sl''], File True [])]) [''out.cpp''] Map.empty
     = (Inl UnicodeEncodeError, Map.empty, [])"
proof -
  let ?pairs = "[(CHR 0xFF # ''.sl'', [])]"
  let ?doc = "generate_content ?pairs"
  have sa: "path_suffix [CHR 0xFF # ''.sl''] = ''.sl''"
    by (simp add: path_suffix_def path_name_def rfind_def)
  have c: "collect_files (Some [([CHR 0xFF # ''.sl''], File True [])]) = Inr ?pairs"
    by (simp add: collect_files_def sa read_or_replace_def read_text_def as_posix_def)
  have pre: "is_ascii (concat header_parts @ ''    { '' @ [DQ])"
    by (simp add: header_parts_def is_ascii_def)
  obtain rest where doc: "?doc = (concat header_parts @ ''    { '' @ [DQ]) @ CHR 0xFF # rest"
    using emit_pair_sl[of "[]" "[CHR 0xFF]" "[]"]
    by (simp add: generate_content_rows table_row_def)
  have "\<not> utf8_encodable (CHR 0xFF # rest)" by simp
  then have ne: "\<not> utf8_encodable ?doc"
    unfolding doc by (simp only: ascii_prefix_encodable[OF pre] not_False_eq_True)
  have ex: "existing_text Map.empty [''out.cpp''] \<noteq> Some ?doc"
    by (simp add: existing_text_def)
  show ?thesis
    by (simp add: main_def c atomic_write_if_changed_def mkdir_parents_def parent_def
        posix_env_def ex mkstemp_def path_name_def write_tmp_def ne cleanup_def)
qed

text \<open>
  The observable states end in the state the call leaves behind, and in each of them the
  target holds what it held before the call or, once the replace has succeeded, the
  whole new document.
\<close>

lemma mkdirs_states_effect:
  "s \<in> set (mkdirs_states qs fs) \<Longrightarrow>
     s q = fs q \<or> (fs q = None \<and> q \<in> set qs \<and> s q = Some Dir)"
proof (induction qs arbitrary: fs)
  case Nil
  then show ?case by simp
next
  case (Cons a qs)
  show ?case
  proof (cases "fs a")
    case None
    with Cons.prems have "s = fs(a \<mapsto> Dir) \<or> s \<in> set (mkdirs_states qs (fs(a \<mapsto> Dir)))"
      by simp
    then show ?thesis
    proof
      assume "s = fs(a \<mapsto> Dir)"
      with None show ?thesis by auto
    next
      assume "s \<in> set (mkdirs_states qs (fs(a \<mapsto> Dir)))"
      from Cons.IH[OF this] None show ?thesis by (auto split: if_splits)
    qed
  next
    case (Some n)
    show ?thesis
    proof (cases n)
      case Dir
      with Some Cons.prems have "s \<in> set (mkdirs_states qs fs)" by simp
      from Cons.IH[OF this] show ?thesis by auto
    next
      case (File x y)
      with Some Cons.prems show ?thesis by simp
    qed
  qed
qed

lemma mkdirs_states_last: "last (fs # mkdirs_states qs fs) = snd (mkdirs qs fs)"
proof (induction qs arbitrary: fs)
  case Nil
  then show ?case by simp
next
  case (Cons a qs)
  show ?case
  proof (cases "fs a")
    case None
    have "last (fs # mkdirs_states (a # qs) fs)
        = last (fs(a \<mapsto> Dir) # mkdirs_states qs (fs(a \<mapsto> Dir)))"
      using None by simp
    also have "\<dots> = snd (mkdirs qs (fs(a \<mapsto> Dir)))" by (rule Cons.IH)
    also have "\<dots> = snd (mkdirs (a # qs) fs)" using None by simp
    finally show ?thesis .
  next
    case (Some n)
    show ?thesis
    proof (cases n)
      case Dir
      have "last (fs # mkdirs_states (a # qs) fs) = last (fs # mkdirs_states qs fs)"
        using Some Dir by simp
      also have "\<dots> = snd (mkdirs qs fs)" by (rule Cons.IH)
      also have "\<dots> = snd (mkdirs (a # qs) fs)" using Some Dir by simp
      finally show ?thesis .
    next
      case (File x y)
      with Some show ?thesis by simp
    qed
  qed
qed

lemma mkdir_parents_states_last:
  "last (fs # mkdir_parents_states e fs d) = snd (mkdir_parents e fs d)"
proof (cases "fail_mkdir e")
  case True
  then show ?thesis by (simp add: mkdir_parents_states_def mkdir_parents_def)
next
  case False
  then show ?thesis
    using mkdirs_states_last[of fs "tl (prefixes d)"]
    by (simp add: mkdir_parents_states_def mkdir_parents_def del: last.simps)
qed

lemma mkdir_parents_states_target:
  assumes "s \<in> set (mkdir_parents_states e fs (parent p))"
  shows "s p = fs p"
proof -
  from assms have "s \<in> set (mkdirs_states (tl (prefixes (parent p))) fs)"
    by (simp add: mkdir_parents_states_def split: if_splits)
  from mkdirs_states_effect[OF this, of p] target_not_ancestor[of p] show ?thesis by auto
qed

lemma take_min_length: "take (min n (length xs)) xs = take n xs"
  by (simp add: min_def)

lemma write_tmp_states_last:
  "last (fs(tmp \<mapsto> File True []) # write_tmp_states e (fs(tmp \<mapsto> File True [])) tmp content)
     = snd (write_tmp e (fs(tmp \<mapsto> File True [])) tmp content)"
proof (cases "utf8_encodable content")
  case False
  then show ?thesis by (simp add: write_tmp_states_def write_tmp_def)
next
  case True
  let ?data = "map Chr (write_newlines (linesep e) content)"
  show ?thesis
  proof (cases "fail_write e")
    case None
    with True show ?thesis
      by (simp add: write_tmp_states_def write_tmp_def Let_def last_map del: upt_Suc)
  next
    case (Some n)
    have "take (min n (length ?data)) ?data = take n ?data" by (rule take_min_length)
    with True Some show ?thesis
      by (simp add: write_tmp_states_def write_tmp_def Let_def last_map del: upt_Suc)
  qed
qed

lemma write_tmp_states_target:
  assumes "s \<in> set (write_tmp_states e fs tmp content)" and "tmp \<noteq> p"
  shows "s p = fs p"
  using assms by (auto simp: write_tmp_states_def Let_def split: if_splits)

lemma states_last:
  "fst (snd (atomic_write_if_changed e fs p content)) = last (fs # atomic_write_states e fs p content)"
proof -
  obtain r fs1 where mk: "mkdir_parents e fs (parent p) = (r, fs1)"
    by (cases "mkdir_parents e fs (parent p)")
  have l1: "last (fs # mkdir_parents_states e fs (parent p)) = fs1"
    using mkdir_parents_states_last[of fs e "parent p"] mk by simp
  show ?thesis
  proof (cases r)
    case (Some err)
    with mk l1 show ?thesis
      by (simp add: atomic_write_if_changed_def atomic_write_states_def del: last.simps)
  next
    case None
    note r = this
    show ?thesis
    proof (cases "existing_text fs1 p = Some content")
      case True
      with mk r l1 show ?thesis
        by (simp add: atomic_write_if_changed_def atomic_write_states_def del: last.simps)
    next
      case False
      note ex = this
      show ?thesis
      proof (cases "mkstemp e fs1 (parent p) (path_name p)")
        case (Inl a)
        with mk r ex l1 show ?thesis
          by (simp add: atomic_write_if_changed_def atomic_write_states_def del: last.simps)
      next
        case (Inr b)
        obtain tmp fs2 where b: "b = (tmp, fs2)" by (cases b)
        obtain w fs3 where w: "write_tmp e fs2 tmp content = (w, fs3)"
          by (cases "write_tmp e fs2 tmp content")
        obtain x fs4 where x: "os_replace e fs3 tmp p = (x, fs4)"
          by (cases "os_replace e fs3 tmp p")
        from mk r ex Inr b w x show ?thesis
          by (cases w; cases x)
             (simp_all add: atomic_write_if_changed_def atomic_write_states_def)
      qed
    qed
  qed
qed

lemma states_keep_target:
  assumes ne: "[] \<notin> set (tmp_suffixes e)"
    and s: "s \<in> set (atomic_write_states e fs p content)"
  shows "s p = fs p \<or>
     (s p = Some (File True (map Chr (write_newlines (linesep e) content)))
      \<and> (\<exists>fs' out. atomic_write_if_changed e fs p content = (Inr True, fs', out)))"
proof (cases "s \<in> set (mkdir_parents_states e fs (parent p))")
  case True
  then show ?thesis using mkdir_parents_states_target by blast
next
  case False
  note nms = this
  obtain r fs1 where mk: "mkdir_parents e fs (parent p) = (r, fs1)"
    by (cases "mkdir_parents e fs (parent p)")
  have t1: "fs1 p = fs p" by (rule mkdir_parents_target[OF mk])
  from s nms mk have r: "r = None"
    by (cases r) (simp_all add: atomic_write_states_def)
  from s nms mk r have ex: "existing_text fs1 p \<noteq> Some content"
    by (auto simp: atomic_write_states_def)
  from s nms mk r ex obtain tmp fs2 where
    ms: "mkstemp e fs1 (parent p) (path_name p) = Inr (tmp, fs2)"
    by (cases "mkstemp e fs1 (parent p) (path_name p)") (auto simp: atomic_write_states_def)
  from mkstemp_result[OF ms] obtain sf where sf: "sf \<in> set (tmp_suffixes e)"
    and tmp: "tmp = parent p @ [path_name p @ sf]" and free: "fs1 tmp = None"
    and fs2: "fs2 = fs1(tmp \<mapsto> File True [])" by blast
  from sf ne have "sf \<noteq> []" by auto
  then have tp: "tmp \<noteq> p" unfolding tmp by (rule tmp_not_target)
  have t2: "fs2 p = fs p" using tp t1 by (simp add: fs2)
  obtain w fs3 where w: "write_tmp e fs2 tmp content = (w, fs3)"
    by (cases "write_tmp e fs2 tmp content")
  have t3: "fs3 p = fs p"
    using w t2 tp by (auto simp: write_tmp_def Let_def split: if_splits option.splits)
  have cl: "cleanup e f tmp p = f p" for f
    using tp by (simp add: cleanup_def)
  obtain x fs4 where x: "os_replace e fs3 tmp p = (x, fs4)"
    by (cases "os_replace e fs3 tmp p")
  let ?tail = "(case write_tmp e fs2 tmp content of
                    (Some err, fs3) \<Rightarrow> [cleanup e fs3 tmp]
                  | (None, fs3) \<Rightarrow>
                      (case os_replace e fs3 tmp p of
                         (Some err, fs4) \<Rightarrow> [cleanup e fs4 tmp]
                       | (None, fs4) \<Rightarrow> [fs4, cleanup e fs4 tmp]))"
  from s nms mk r ex ms have
    "s = fs2 \<or> s \<in> set (write_tmp_states e fs2 tmp content) \<or> s \<in> set ?tail"
    by (auto simp: atomic_write_states_def)
  then show ?thesis
  proof (elim disjE)
    assume "s = fs2"
    with t2 show ?thesis by simp
  next
    assume "s \<in> set (write_tmp_states e fs2 tmp content)"
    from write_tmp_states_target[OF this tp] t2 show ?thesis by simp
  next
    assume tl: "s \<in> set ?tail"
    show ?thesis
    proof (cases w)
      case (Some err)
      with tl w have "s = cleanup e fs3 tmp" by simp
      with cl t3 show ?thesis by simp
    next
      case None
      note wn = this
      show ?thesis
      proof (cases x)
        case (Some err)
        with tl w wn x have "s = cleanup e fs4 tmp" by simp
        moreover from x Some have "fs4 = fs3"
          by (auto simp: os_replace_def split: if_splits option.splits node.splits)
        ultimately show ?thesis using cl t3 by simp
      next
        case None
        from write_phase_success[OF ms w[unfolded wn] x[unfolded None] ne]
        have fin: "cleanup e fs4 tmp = fs1(p \<mapsto> File True (map Chr (write_newlines (linesep e) content)))" .
        have "fs4 tmp = None"
          using x None tp by (auto simp: os_replace_def split: if_splits option.splits node.splits)
        then have "cleanup e fs4 tmp = fs4" by (simp add: cleanup_def)
        with fin have f4: "fs4 = fs1(p \<mapsto> File True (map Chr (write_newlines (linesep e) content)))"
          by simp
        from tl w wn x None have "s = fs4 \<or> s = cleanup e fs4 tmp" by simp
        with fin f4 have sp: "s p = Some (File True (map Chr (write_newlines (linesep e) content)))"
          by auto
        have "atomic_write_if_changed e fs p content = (Inr True, cleanup e fs4 tmp, [wrote_message p])"
          using mk r ex ms w wn x None by (simp add: atomic_write_if_changed_def)
        with sp show ?thesis by blast
      qed
    qed
  qed
qed

lemma failure_keeps_files:
  assumes ret: "atomic_write_if_changed e fs p content = (Inl err, fs', out)"
    and ne: "[] \<notin> set (tmp_suffixes e)"
  shows "fs' p = fs p
     \<and> (\<forall>q n. fs q = Some n \<longrightarrow> fs' q = Some n)
     \<and> (\<not> fail_unlink e \<longrightarrow> (\<forall>q. fs' q = fs q \<or> (fs q = None \<and> fs' q = Some Dir)))"
proof -
  from writer_raises[OF ret] obtain r fsa where
    mk: "mkdir_parents e fs (parent p) = (r, fsa)"
    and alt: "fs' = fsa \<or>
      (fail_unlink e \<and> (\<exists>s \<in> set (tmp_suffixes e). \<exists>cs.
          fsa (parent p @ [path_name p @ s]) = None
        \<and> fs' = fsa(parent p @ [path_name p @ s] \<mapsto> File True cs)))"
    by blast
  have eff: "\<And>q. fsa q = fs q \<or> (fs q = None \<and> fsa q = Some Dir)"
    using mkdir_parents_effect[OF mk] by blast
  have tp: "fsa p = fs p" by (rule mkdir_parents_target[OF mk])
  from alt show ?thesis
  proof
    assume "fs' = fsa"
    with eff tp show ?thesis by (metis option.distinct(1))
  next
    assume a: "fail_unlink e \<and> (\<exists>s \<in> set (tmp_suffixes e). \<exists>cs.
          fsa (parent p @ [path_name p @ s]) = None
        \<and> fs' = fsa(parent p @ [path_name p @ s] \<mapsto> File True cs))"
    then obtain s cs where s: "s \<in> set (tmp_suffixes e)"
      and free: "fsa (parent p @ [path_name p @ s]) = None"
      and fs': "fs' = fsa(parent p @ [path_name p @ s] \<mapsto> File True cs)" by blast
    from s ne have "s \<noteq> []" by auto
    then have tp': "parent p @ [path_name p @ s] \<noteq> p" by (rule tmp_not_target)
    have 1: "fs' p = fs p" using tp tp' by (simp add: fs')
    have 2: "\<forall>q n. fs q = Some n \<longrightarrow> fs' q = Some n"
    proof (intro allI impI)
      fix q n assume q: "fs q = Some n"
      with eff[of q] have "fsa q = Some n" by auto
      with free show "fs' q = Some n" by (auto simp: fs')
    qed
    from 1 2 a show ?thesis by simp
  qed
qed

text \<open>
  C4, amended. Whenever the call raises (in particular when writing the temporary file
  or the replace fails), the target holds what it held before or is still absent, and
  every node that existed is unchanged. In every state the file system passes through
  during the call the target holds what it held before: it is never seen partly
  written. When removing the temporary file does not fail itself, nothing is left behind
  but directories that were created; no temporary file remains.
\<close>

theorem failure_leaves_target:
  assumes ret: "atomic_write_if_changed e fs p content = (Inl err, fs', out)"
    and ne: "[] \<notin> set (tmp_suffixes e)"
  shows "fs' p = fs p
     \<and> (\<forall>q n. fs q = Some n \<longrightarrow> fs' q = Some n)
     \<and> (\<forall>s \<in> set (atomic_write_states e fs p content). s p = fs p)
     \<and> fs' = last (fs # atomic_write_states e fs p content)
     \<and> (\<not> fail_unlink e \<longrightarrow> (\<forall>q. fs' q = fs q \<or> (fs q = None \<and> fs' q = Some Dir)))"
proof -
  have st: "\<forall>s \<in> set (atomic_write_states e fs p content). s p = fs p"
  proof
    fix s assume "s \<in> set (atomic_write_states e fs p content)"
    from states_keep_target[OF ne this] ret show "s p = fs p" by auto
  qed
  have la: "fs' = last (fs # atomic_write_states e fs p content)"
    using states_last[of e fs p content] ret by simp
  from failure_keeps_files[OF ret ne] st la show ?thesis by blast
qed

text \<open>
  The replace fails: the target keeps its old content in each of the six states the call
  passes through, and the temporary file is gone at the end.
\<close>

theorem failure_leaves_target_witness:
  "atomic_write_if_changed (posix_env\<lparr>fail_replace := True\<rparr>)
      [[''out.cpp''] \<mapsto> File True (map Chr ''old'')] [''out.cpp''] ''new''
     = (Inl OSError, [[''out.cpp''] \<mapsto> File True (map Chr ''old'')], [])
   \<and> [] \<notin> set (tmp_suffixes (posix_env\<lparr>fail_replace := True\<rparr>))
   \<and> length (atomic_write_states (posix_env\<lparr>fail_replace := True\<rparr>)
        [[''out.cpp''] \<mapsto> File True (map Chr ''old'')] [''out.cpp''] ''new'') = 6
   \<and> list_all (\<lambda>s. s [''out.cpp''] = Some (File True (map Chr ''old'')))
        (atomic_write_states (posix_env\<lparr>fail_replace := True\<rparr>)
           [[''out.cpp''] \<mapsto> File True (map Chr ''old'')] [''out.cpp''] ''new'')"
proof -
  let ?e = "posix_env\<lparr>fail_replace := True\<rparr>"
  let ?fs = "[[''out.cpp''] \<mapsto> File True (map Chr ''old'')]"
  have ne: "[] \<notin> set (tmp_suffixes ?e)" by (simp add: posix_env_def)
  obtain r fs' out where ret: "atomic_write_if_changed ?e ?fs [''out.cpp''] ''new'' = (r, fs', out)"
    by (cases "atomic_write_if_changed ?e ?fs [''out.cpp''] ''new''")
  then have r: "r = Inl OSError" and out: "out = []"
    by (auto simp: atomic_write_if_changed_def mkdir_parents_def parent_def posix_env_def
        existing_text_def read_text_def mkstemp_def path_name_def write_tmp_def Let_def
        os_replace_def cleanup_def)
  have nu: "\<not> fail_unlink ?e" by (simp add: posix_env_def)
  have nd: "fs' q \<noteq> Some Dir" for q
    using ret
    by (auto simp: atomic_write_if_changed_def mkdir_parents_def parent_def posix_env_def
        existing_text_def read_text_def mkstemp_def path_name_def write_tmp_def Let_def
        os_replace_def cleanup_def split: if_splits)
  have len: "length (atomic_write_states ?e ?fs [''out.cpp''] ''new'') = 6"
    by (simp add: atomic_write_states_def mkdir_parents_states_def mkdir_parents_def parent_def
        posix_env_def existing_text_def read_text_def mkstemp_def path_name_def write_tmp_def
        write_tmp_states_def write_newlines_def Let_def os_replace_def)
  note t = failure_leaves_target[OF ret[unfolded r] ne]
  from t nu nd have "\<forall>q. fs' q = ?fs q" by blast
  then have eq: "fs' = ?fs" by (simp add: fun_eq_iff)
  from t have "list_all (\<lambda>s. s [''out.cpp''] = Some (File True (map Chr ''old'')))
        (atomic_write_states ?e ?fs [''out.cpp''] ''new'')"
    by (simp add: list_all_iff)
  with ret r out ne eq len show ?thesis by simp
qed

text \<open>
  C4 as stated fails: the removal in the \<^verbatim>\<open>finally\<close> block is itself inside a
  \<^verbatim>\<open>try\<close> whose handler ignores the exception. When the write fails after one
  character and the removal fails too, the temporary file stays, partly written.
\<close>

theorem failed_cleanup_leaves_temporary_file:
  "atomic_write_if_changed (posix_env\<lparr>fail_write := Some 1, fail_unlink := True\<rparr>)
      Map.empty [''out.cpp''] ''ab''
     = (Inl OSError, [[''out.cppk3x_9qzp''] \<mapsto> File True [Chr (CHR ''a'')]], [])"
  by (simp add: atomic_write_if_changed_def mkdir_parents_def parent_def posix_env_def
      existing_text_def mkstemp_def path_name_def write_tmp_def Let_def cleanup_def
      write_newlines_def)

text \<open>
  Text mode: what was written without a carriage return is read back as it was.
\<close>

lemma universal_newlines_Cons:
  "c \<noteq> CR \<Longrightarrow> universal_newlines (c # t) = c # universal_newlines t"
  by (cases t) auto

lemma universal_newlines_CRLF:
  "universal_newlines (CR # LF # t) = LF # universal_newlines t"
  by simp

lemma newline_roundtrip:
  assumes "CR \<notin> set s" and "ls = [LF] \<or> ls = [CR, LF]"
  shows "universal_newlines (write_newlines ls s) = s"
  using assms(1)
proof (induction s)
  case Nil
  then show ?case by (simp add: write_newlines_def)
next
  case (Cons c s)
  then have ih: "universal_newlines (replace [LF] ls s) = s" and c: "c \<noteq> CR"
    by (auto simp: write_newlines_def)
  show ?case
  proof (cases "c = LF")
    case True
    from assms(2) show ?thesis
    proof
      assume "ls = [LF]"
      with True ih show ?thesis
        by (simp add: write_newlines_def universal_newlines_Cons)
    next
      assume "ls = [CR, LF]"
      with True ih show ?thesis
        by (simp add: write_newlines_def)
    qed
  next
    case False
    with c ih show ?thesis
      by (simp add: write_newlines_def universal_newlines_Cons)
  qed
qed

lemma cpp_escape_no_CR: "CR \<notin> set (cpp_escape d)"
  by (auto simp: cpp_escape_chars escape_char_def split: if_splits)

lemma rsplit1_head_subset: "set (rsplit1 c s ! 0) \<subseteq> set s"
proof (cases "c \<in> set s")
  case True
  have "set (tl xs) \<subseteq> set xs" for xs :: string by (cases xs) auto
  moreover have "set (dropWhile (\<lambda>x. x \<noteq> c) (rev s)) \<subseteq> set (rev s)"
    by (auto dest: set_dropWhileD)
  ultimately have "set (tl (dropWhile (\<lambda>x. x \<noteq> c) (rev s))) \<subseteq> set (rev s)"
    by blast
  with True show ?thesis by (simp add: rsplit1_def)
next
  case False
  then show ?thesis by (simp add: rsplit1_def)
qed

lemma emit_pair_no_CR:
  assumes "CR \<notin> set rel"
  shows "CR \<notin> set (concat (emit_pair [] (rel, data)))"
proof -
  have "CR \<notin> set (rsplit1 (CHR ''.'') rel ! 0)"
    using assms rsplit1_head_subset[of "CHR ''.''" rel] by blast
  with assms cpp_escape_no_CR[of data] show ?thesis
    by (simp add: emit_pair_def Let_def table_row_def)
qed

lemma generate_content_no_CR:
  assumes "\<forall>pr \<in> set pairs. CR \<notin> set (fst pr)"
  shows "CR \<notin> set (generate_content pairs)"
proof -
  have h: "CR \<notin> set (concat header_parts)" by (simp add: header_parts_def)
  have f: "CR \<notin> set (concat footer_parts)" by (simp add: footer_parts_def)
  have "CR \<notin> set (concat (concat (map (emit_pair []) pairs)))"
    using assms
  proof (induction pairs)
    case Nil
    then show ?case by simp
  next
    case (Cons pr pairs)
    obtain rel data where pr: "pr = (rel, data)" by (cases pr)
    with Cons.prems have "CR \<notin> set rel" by simp
    from emit_pair_no_CR[OF this, of data] Cons pr show ?case by simp
  qed
  with h f show ?thesis by (simp add: generate_content_rows)
qed

lemma ascii_encodable: "is_ascii s \<Longrightarrow> utf8_encodable s"
  by (induction s) (simp_all add: is_ascii_def)

lemma is_ascii_append: "is_ascii (a @ b) \<longleftrightarrow> is_ascii a \<and> is_ascii b"
  by (simp add: is_ascii_def)

lemma is_ascii_Cons: "is_ascii (c # s) \<longleftrightarrow> (of_char c :: nat) < 0x80 \<and> is_ascii s"
  by (simp add: is_ascii_def)

lemma cpp_escape_ascii: "is_ascii d \<Longrightarrow> is_ascii (cpp_escape d)"
  by (induction d) (simp_all add: cpp_escape_chars escape_char_def is_ascii_def)

lemma rsplit1_head_ascii:
  assumes "is_ascii s"
  shows "is_ascii (rsplit1 c s ! 0)"
  using assms rsplit1_head_subset[of c s] by (auto simp: is_ascii_def list_all_iff)

lemma emit_pair_ascii:
  assumes "is_ascii rel" and "is_ascii data"
  shows "is_ascii (concat (emit_pair [] (rel, data)))"
proof -
  have e: "is_ascii (cpp_escape data)" by (rule cpp_escape_ascii[OF assms(2)])
  have n: "is_ascii (rsplit1 (CHR ''.'') rel ! 0)" by (rule rsplit1_head_ascii[OF assms(1)])
  have nil: "is_ascii []" by (simp add: is_ascii_def)
  show ?thesis
    using assms(1) e n nil
    by (simp add: emit_pair_def Let_def table_row_def is_ascii_append is_ascii_Cons)
qed

lemma generate_content_ascii:
  assumes "\<forall>pr \<in> set pairs. is_ascii (fst pr) \<and> is_ascii (snd pr)"
  shows "is_ascii (generate_content pairs)"
proof -
  have h: "is_ascii (concat header_parts)" by (simp add: header_parts_def is_ascii_def)
  have f: "is_ascii (concat footer_parts)" by (simp add: footer_parts_def is_ascii_def)
  have "is_ascii (concat (concat (map (emit_pair []) pairs)))"
    using assms
  proof (induction pairs)
    case Nil
    then show ?case by (simp add: is_ascii_def)
  next
    case (Cons pr pairs)
    obtain rel data where pr: "pr = (rel, data)" by (cases pr)
    with Cons.prems have "is_ascii rel" "is_ascii data" by simp_all
    from emit_pair_ascii[OF this] Cons pr show ?case by (simp add: is_ascii_append)
  qed
  with h f show ?thesis by (simp add: generate_content_rows is_ascii_append)
qed

lemma existing_text_written:
  assumes "CR \<notin> set doc" and "ls = [LF] \<or> ls = [CR, LF]"
  shows "existing_text (fsa(p \<mapsto> File True (map Chr (write_newlines ls doc)))) p = Some doc"
proof -
  have "Undecodable \<notin> set (map Chr (write_newlines ls doc))" by auto
  then show ?thesis
    using newline_roundtrip[OF assms]
    by (simp add: existing_text_def read_text_def decode_Strict lossy_text_Chr)
qed

lemma main_returns:
  assumes "main e lib out_cpp fs = (Inr c, fs1, out1)"
  shows "\<exists>pairs changed. collect_files lib = Inr pairs
     \<and> atomic_write_if_changed e fs out_cpp (generate_content pairs) = (Inr changed, fs1, out1)
     \<and> c = 0"
proof (cases "collect_files lib")
  case (Inl a)
  with assms show ?thesis by (simp add: main_def)
next
  case (Inr pairs)
  obtain r fs' out where w: "atomic_write_if_changed e fs out_cpp (generate_content pairs) = (r, fs', out)"
    by (cases "atomic_write_if_changed e fs out_cpp (generate_content pairs)")
  with assms Inr show ?thesis
    by (cases r) (auto simp: main_def Let_def)
qed

text \<open>
  Where the second run does leave the target alone: after a run that succeeded, over a
  tree none of whose collected relative paths holds a carriage return, a second run with
  the same tree, target and environment finds the target's text equal to the document,
  prints the unchanged line, exits with 0 and leaves the file system as it was.
\<close>

lemma second_run_unchanged:
  assumes run1: "main e lib out_cpp fs = (Inr 0, fs1, out1)"
    and pairs: "collect_files lib = Inr pairs"
    and nocr: "\<forall>pr \<in> set pairs. CR \<notin> set (fst pr)"
    and ls: "linesep e = [LF] \<or> linesep e = [CR, LF]"
    and ne: "[] \<notin> set (tmp_suffixes e)"
  shows "main e lib out_cpp fs1 = (Inr 0, fs1, [unchanged_message out_cpp])
     \<and> existing_text fs1 out_cpp = Some (generate_content pairs)
     \<and> (out1 = [wrote_message out_cpp] \<or> out1 = [unchanged_message out_cpp])"
proof -
  let ?doc = "generate_content pairs"
  let ?anc = "tl (prefixes (parent out_cpp))"
  from main_returns[OF run1] pairs obtain changed where
    w1: "atomic_write_if_changed e fs out_cpp ?doc = (Inr changed, fs1, out1)" by auto
  from writer_returns[OF w1 ne] obtain fsa where
    mk: "mkdir_parents e fs (parent out_cpp) = (None, fsa)"
    and c: "changed \<Longrightarrow> fs1 = fsa(out_cpp \<mapsto> File True (map Chr (write_newlines (linesep e) ?doc)))
         \<and> out1 = [wrote_message out_cpp]"
    and u: "\<not> changed \<Longrightarrow> existing_text fsa out_cpp = Some ?doc \<and> fs1 = fsa
         \<and> out1 = [unchanged_message out_cpp]"
    by (cases changed) auto
  from mk have nfm: "\<not> fail_mkdir e" and mks: "mkdirs ?anc fs = (None, fsa)"
    by (auto simp: mkdir_parents_def split: if_splits)
  have cr: "CR \<notin> set ?doc" by (rule generate_content_no_CR[OF nocr])
  have dirs: "\<forall>q \<in> set ?anc. fs1 q = Some Dir"
  proof
    fix q assume q: "q \<in> set ?anc"
    then have "fsa q = Some Dir" by (rule mkdirs_success[OF mks])
    moreover have "q \<noteq> out_cpp" using q target_not_ancestor[of out_cpp] by auto
    ultimately show "fs1 q = Some Dir" using c u by (cases changed) auto
  qed
  have mk2: "mkdir_parents e fs1 (parent out_cpp) = (None, fs1)"
    using mkdirs_present[OF dirs] nfm by (simp add: mkdir_parents_def)
  have ex: "existing_text fs1 out_cpp = Some ?doc"
  proof (cases changed)
    case True
    with c have "fs1 = fsa(out_cpp \<mapsto> File True (map Chr (write_newlines (linesep e) ?doc)))"
      by simp
    then show ?thesis using existing_text_written[OF cr ls] by simp
  next
    case False
    with u show ?thesis by simp
  qed
  have w2: "atomic_write_if_changed e fs1 out_cpp ?doc = (Inr False, fs1, [unchanged_message out_cpp])"
    using mk2 ex by (simp add: atomic_write_if_changed_def)
  have "main e lib out_cpp fs1 = (Inr 0, fs1, [unchanged_message out_cpp])"
    using pairs w2 by (simp add: main_def)
  moreover have "out1 = [wrote_message out_cpp] \<or> out1 = [unchanged_message out_cpp]"
    using c u by (cases changed) auto
  ultimately show ?thesis using ex by simp
qed

text \<open>
  Two runs over one file, into a directory the first run creates.
\<close>

lemma second_run_unchanged_example:
  "\<exists>fs1. main posix_env (Some [([''std.sl''], File True [Chr (CHR ''x'')])])
             [''build'', ''builtin_sl.cpp''] Map.empty
          = (Inr 0, fs1, [wrote_message [''build'', ''builtin_sl.cpp'']])
     \<and> main posix_env (Some [([''std.sl''], File True [Chr (CHR ''x'')])])
             [''build'', ''builtin_sl.cpp''] fs1
          = (Inr 0, fs1, [unchanged_message [''build'', ''builtin_sl.cpp'']])
     \<and> existing_text fs1 [''build'', ''builtin_sl.cpp''] = Some (generate_content [(''std.sl'', ''x'')])"
proof -
  let ?lib = "Some [([''std.sl''], File True [Chr (CHR ''x'')])]"
  let ?out = "[''build'', ''builtin_sl.cpp'']"
  have sa: "path_suffix [''std.sl''] = ''.sl''"
    by (simp add: path_suffix_def path_name_def rfind_def)
  have c: "collect_files ?lib = Inr [(''std.sl'', ''x'')]"
    by (simp add: collect_files_def sa read_or_replace_def read_text_def as_posix_def)
  have enc: "utf8_encodable (generate_content [(''std.sl'', ''x'')])"
    by (rule ascii_encodable, rule generate_content_ascii) (simp add: is_ascii_def)
  obtain r fs1 out1 where run: "main posix_env ?lib ?out Map.empty = (r, fs1, out1)"
    by (cases "main posix_env ?lib ?out Map.empty")
  then have r: "r = Inr 0" and o: "out1 = [wrote_message ?out]"
    by (auto simp: main_def c enc atomic_write_if_changed_def mkdir_parents_def parent_def
        posix_env_def existing_text_def mkstemp_def path_name_def write_tmp_def Let_def
        os_replace_def cleanup_def)
  have nocr: "\<forall>pr \<in> set [(''std.sl'', ''x'')]. CR \<notin> set (fst pr)" by simp
  have ls: "linesep posix_env = [LF] \<or> linesep posix_env = [CR, LF]" by (simp add: posix_env_def)
  have ne: "[] \<notin> set (tmp_suffixes posix_env)" by (simp add: posix_env_def)
  from second_run_unchanged[OF run[unfolded r] c nocr ls ne] run r o
  show ?thesis by (intro exI[of _ fs1]) simp
qed

lemma replace_same: "replace [c] [c] s = s"
  by (induction s) auto

text \<open>
  C6. The code breaks the claim on a tree with a file whose name holds a carriage return
  (a legal name on POSIX). The key is written raw, text mode reads the carriage return
  back as a line feed, and the comparison with the document fails: the second run prints
  the written line and replaces the target, although the target already holds the bytes
  of the document and the file system after the second run is the one before it.
\<close>

theorem cr_in_file_name_rewritten:
  "\<exists>fs1.
      main posix_env (Some [([CHR ''a'' # CR # ''.sl''], File True [])]) [''out.cpp''] Map.empty
        = (Inr 0, fs1, [wrote_message [''out.cpp'']])
    \<and> fs1 [''out.cpp''] =
        Some (File True (map Chr (generate_content [(CHR ''a'' # CR # ''.sl'', [])])))
    \<and> main posix_env (Some [([CHR ''a'' # CR # ''.sl''], File True [])]) [''out.cpp''] fs1
        = (Inr 0, fs1, [wrote_message [''out.cpp'']])"
proof -
  let ?lib = "Some [([CHR ''a'' # CR # ''.sl''], File True [])]"
  let ?out = "[''out.cpp'']"
  let ?pairs = "[(CHR ''a'' # CR # ''.sl'', [])]"
  let ?doc = "generate_content ?pairs"
  let ?node = "File True (map Chr ?doc)"
  have sa: "path_suffix [CHR ''a'' # CR # ''.sl''] = ''.sl''"
    by (simp add: path_suffix_def path_name_def rfind_def)
  have c: "collect_files ?lib = Inr ?pairs"
    by (simp add: collect_files_def sa read_or_replace_def read_text_def as_posix_def)
  have cr: "CR \<in> set ?doc"
    using emit_pair_sl[of "[]" "[CHR ''a'', CR]" "[]"]
    by (simp add: generate_content_rows table_row_def)
  have enc: "utf8_encodable ?doc"
    by (rule ascii_encodable, rule generate_content_ascii) (simp add: is_ascii_def)
  have ne: "[] \<notin> set (tmp_suffixes posix_env)" by (simp add: posix_env_def)
  have nf: "\<not> fail_mkdir posix_env" "\<not> fail_mkstemp posix_env" "fail_write posix_env = None"
    "\<not> fail_replace posix_env"
    by (simp_all add: posix_env_def)
  have wn: "write_newlines (linesep posix_env) ?doc = ?doc"
    by (simp add: posix_env_def write_newlines_def replace_same)
  have never: "existing_text f ?out \<noteq> Some ?doc" for f
  proof
    assume "existing_text f ?out = Some ?doc"
    then obtain cs where "universal_newlines (lossy_text cs) = ?doc"
      by (auto simp: existing_text_Some)
    with universal_newlines_no_CR[of "lossy_text cs"] cr show False by simp
  qed
  have step: "main posix_env ?lib ?out f = (Inr 0, f(?out \<mapsto> ?node), [wrote_message ?out])"
    if tgt: "f ?out \<noteq> Some Dir" and free: "f [''out.cppk3x_9qzp''] = None" for f
  proof -
    have anc: "\<forall>q \<in> set (tl (prefixes (parent ?out))). f q = None \<or> f q = Some Dir"
      by (simp add: parent_def)
    have fresh: "\<exists>s \<in> set (tmp_suffixes posix_env). f (parent ?out @ [path_name ?out @ s]) = None"
      using free by (simp add: posix_env_def parent_def path_name_def)
    from writer_returns_without_faults[of posix_env ?out f ?doc, OF nf anc tgt fresh enc]
    obtain changed fs' out where
      w: "atomic_write_if_changed posix_env f ?out ?doc = (Inr changed, fs', out)" by blast
    have mk: "mkdir_parents posix_env f (parent ?out) = (None, f)"
      by (simp add: mkdir_parents_def parent_def posix_env_def)
    from writer_returns[OF w ne] never mk have
      "changed" "out = [wrote_message ?out]" "fs' = f(?out \<mapsto> ?node)"
      by (cases changed; auto simp: wn)+
    with w c show ?thesis by (simp add: main_def)
  qed
  let ?fs1 = "Map.empty(?out \<mapsto> ?node)"
  have r1: "main posix_env ?lib ?out Map.empty = (Inr 0, ?fs1, [wrote_message ?out])"
    by (rule step) simp_all
  have "main posix_env ?lib ?out ?fs1 = (Inr 0, ?fs1(?out \<mapsto> ?node), [wrote_message ?out])"
    by (rule step) simp_all
  then have r2: "main posix_env ?lib ?out ?fs1 = (Inr 0, ?fs1, [wrote_message ?out])"
    by simp
  have t: "?fs1 ?out = Some ?node" by simp
  from r1 t r2 show ?thesis by blast
qed




end
